theory Spec2Isabelle
  imports Main
begin

section \<open>balrogworker.py: artifact verification, publishing and submission\<close>

text \<open>
  A shallow embedding of \<^verbatim>\<open>bin/balrogworker.py\<close>. Python strings are byte strings
  (\<open>string\<close>), Python integers are \<open>int\<close>, exceptions are values of the type \<open>error\<close>
  and every function that can raise returns \<open>error + 'a\<close>. The blob store, the local
  file system, the network and the update service are components of an explicit
  \<open>world\<close> that the effectful functions pass along.

  Modelled: \<^verbatim>\<open>get_hash\<close>, \<^verbatim>\<open>download\<close>, \<^verbatim>\<open>verify_signature\<close>, \<^verbatim>\<open>verify_copy_to_s3\<close>,
  \<^verbatim>\<open>possible_names\<close>, \<^verbatim>\<open>verify_task_schema\<close>, \<^verbatim>\<open>load_task\<close> (after the file is parsed)
  and \<^verbatim>\<open>submit_releases\<close>. Not modelled: \<^verbatim>\<open>verify_args\<close>, \<^verbatim>\<open>get_manifest\<close> and \<^verbatim>\<open>main\<close>.
  The operations of the store themselves do not fail; what another process does to the
  store is the component \<open>racing\<close> of the world.
\<close>

subsection \<open>Python strings and integers\<close>

text \<open>\<^verbatim>\<open>str(n)\<close> for an integer: the decimal digits, with a minus sign when negative.\<close>

definition digit_char :: "nat \<Rightarrow> char" where
  "digit_char d = char_of (48 + d)"

fun str_nat :: "nat \<Rightarrow> string" where
  "str_nat n = (if n < 10 then [digit_char n] else str_nat (n div 10) @ [digit_char (n mod 10)])"

declare str_nat.simps [simp del]

definition str_int :: "int \<Rightarrow> string" where
  "str_int i = (if i < 0 then CHR ''-'' # str_nat (nat (- i)) else str_nat (nat i))"

text \<open>\<^verbatim>\<open>p.rfind(c)\<close>: the highest index of \<open>c\<close> in \<open>p\<close>, or \<open>-1\<close>.\<close>

fun rfind :: "string \<Rightarrow> char \<Rightarrow> int" where
  "rfind [] c = - 1"
| "rfind (x # xs) c =
     (let r = rfind xs c in if 0 \<le> r then r + 1 else if x = c then 0 else - 1)"

text \<open>
  \<^verbatim>\<open>os.path.splitext\<close> (posixpath, through \<^verbatim>\<open>genericpath._splitext(p, '/', None, '.')\<close>):
  \<^verbatim>\<open>
    sepIndex = p.rfind(sep)
    dotIndex = p.rfind(extsep)
    if dotIndex > sepIndex:
        filenameIndex = sepIndex + 1
        while filenameIndex < dotIndex:
            if p[filenameIndex:filenameIndex+1] != extsep:
                return p[:dotIndex], p[dotIndex:]
            filenameIndex += 1
    return p, p[:0]
  \<close>
  The while loop is \<open>splitext_scan\<close>.
\<close>

function splitext_scan :: "string \<Rightarrow> int \<Rightarrow> int \<Rightarrow> string \<times> string" where
  "splitext_scan p filenameIndex dotIndex =
     (if filenameIndex < dotIndex then
        (if take 1 (drop (nat filenameIndex) p) \<noteq> ''.''
         then (take (nat dotIndex) p, drop (nat dotIndex) p)
         else splitext_scan p (filenameIndex + 1) dotIndex)
      else (p, []))"
  by pat_completeness auto
termination
  by (relation "measure (\<lambda>(p, filenameIndex, dotIndex). nat (dotIndex - filenameIndex))") auto

declare splitext_scan.simps [simp del]

definition splitext :: "string \<Rightarrow> string \<times> string" where
  "splitext p =
     (let sepIndex = rfind p CHR ''/'';
          dotIndex = rfind p CHR ''.''
      in if dotIndex > sepIndex then splitext_scan p (sepIndex + 1) dotIndex else (p, []))"

subsection \<open>Candidate names\<close>

text \<open>
  \<^verbatim>\<open>
  def possible_names(initial_name, amount):
      prefix, ext = os.path.splitext(initial_name)
      return [initial_name] + ["{}-{}{}".format(prefix, n, ext) for n in
                               range(1, amount + 1)]
  \<close>
\<close>

definition possible_names :: "string \<Rightarrow> int \<Rightarrow> string list" where
  "possible_names initial_name amount =
     (case splitext initial_name of
        (prefix, ext) \<Rightarrow>
          [initial_name] @ map (\<lambda>n. prefix @ ''-'' @ str_int n @ ext) [1..amount])"

subsection \<open>Values, errors and the world\<close>

text \<open>
  The values of \<^verbatim>\<open>json.load\<close>. A dict is the association list of its items; numbers
  are integers.
\<close>

datatype json =
    JNull
  | JBool bool
  | JNum int
  | JStr string
  | JArr "json list"
  | JObj "(string \<times> json) list"

type_synonym dict = "(string \<times> json) list"

text \<open>
  The exceptions that reach the caller. \<open>RuntimeError\<close> carries the argument tuple the
  source passes to the constructor; \<open>KeyError\<close> carries the missing key or the message.
\<close>

datatype error =
    KeyError string
  | TypeError
  | ValueError
  | IOError string
  | HTTPError nat
  | ConnectionError
  | VerificationError
  | RuntimeError "string list"
  | SubmissionError string

text \<open>What the processes do to the outside, in order.\<close>

datatype event =
    Log string string "json list"
  | Sleep int
  | HttpGet string
  | Chmod string int
  | GetKey string
  | ReadKey string
  | PutIfAbsent string bool
  | SetAcl string string nat
  | ReleaseRun dict
  | NightlyRun dict

record s3key =
  contents :: string
  version_id :: nat
  acl :: string

record response =
  status_code :: nat
  headers :: "string \<rightharpoonup> string"
  chunks :: "string list"

record policy =
  attempts :: nat
  sleeptime :: int
  max_sleeptime :: int

text \<open>
  The world: the bucket the connection opens (names to objects), the object a concurrent
  publisher is about to create under a name (\<open>racing\<close>: it lands between this process's
  \<^verbatim>\<open>get_key\<close> and its write), the store's next version identifier, the local files, the
  number of temporary files made, of HTTP requests sent and of submissions run, and the
  events so far.
\<close>

record world =
  bucket :: "string \<rightharpoonup> s3key"
  racing :: "string \<rightharpoonup> string"
  next_version :: nat
  files :: "string \<rightharpoonup> string"
  tmp_count :: nat
  requests_made :: nat
  submissions :: nat
  trace :: "event list"

text \<open>
  The behaviour of the libraries and services the script calls, as parameters:
  \<^verbatim>\<open>hashlib.new(hash_type)\<close>'s digest, the answer to the \<open>n\<close>-th HTTP request, Python's
  \<^verbatim>\<open>int\<close> on a header (\<open>None\<close>: \<^verbatim>\<open>ValueError\<close>), whether \<^verbatim>\<open>MarFile.verify_signatures\<close>
  accepts a file under a key, the environment variable
  \<^verbatim>\<open>MOZ_DISABLE_MAR_CERT_VERIFICATION\<close>, boto's \<^verbatim>\<open>generate_url\<close> for a bucket, a name and
  a version, the outcome of the \<open>n\<close>-th \<^verbatim>\<open>submitter.run\<close>, the default arguments of
  \<^verbatim>\<open>retry\<close>, and Python's rendering of lists and dicts.
\<close>

record env =
  hashlib :: "string \<Rightarrow> string \<Rightarrow> string"
  net :: "string \<Rightarrow> nat \<Rightarrow> error + response"
  parse_int :: "string \<Rightarrow> int option"
  signature_ok :: "string \<Rightarrow> string \<Rightarrow> bool"
  moz_disable_mar_cert_verification :: "string option"
  generate_url :: "string \<Rightarrow> string \<Rightarrow> nat \<Rightarrow> string"
  submitter_run :: "nat \<Rightarrow> error option"
  default_policy :: policy
  py_repr :: "json \<Rightarrow> string"

record args =
  api_root :: string
  dummy :: bool
  s3_bucket :: string
  aws_key_id :: string
  aws_key_secret :: string

type_synonym 'a action = "world \<Rightarrow> (error + 'a) \<times> world"

definition emit :: "event \<Rightarrow> world \<Rightarrow> world" where
  "emit ev w = w\<lparr>trace := trace w @ [ev]\<rparr>"

definition log_debug :: "string \<Rightarrow> json list \<Rightarrow> world \<Rightarrow> world" where
  "log_debug fmt xs w = emit (Log ''DEBUG'' fmt xs) w"

definition log_info :: "string \<Rightarrow> json list \<Rightarrow> world \<Rightarrow> world" where
  "log_info fmt xs w = emit (Log ''INFO'' fmt xs) w"

definition log_warn :: "string \<Rightarrow> json list \<Rightarrow> world \<Rightarrow> world" where
  "log_warn fmt xs w = emit (Log ''WARNING'' fmt xs) w"

definition sleep :: "int \<Rightarrow> world \<Rightarrow> world" where
  "sleep secs w = emit (Sleep secs) w"

text \<open>Sequencing of computations that can raise: the first error ends the chain.\<close>

definition ebind :: "error + 'a \<Rightarrow> ('a \<Rightarrow> error + 'b) \<Rightarrow> error + 'b" where
  "ebind m f = (case m of Inl e \<Rightarrow> Inl e | Inr x \<Rightarrow> f x)"

definition wbind :: "'a action \<Rightarrow> ('a \<Rightarrow> 'b action) \<Rightarrow> 'b action" where
  "wbind m f w = (case m w of (Inl e, w') \<Rightarrow> (Inl e, w') | (Inr x, w') \<Rightarrow> f x w')"

definition wlift :: "error + 'a \<Rightarrow> 'a action" where
  "wlift r w = (r, w)"

subsection \<open>Python on JSON values\<close>

text \<open>\<^verbatim>\<open>d[k]\<close> and \<^verbatim>\<open>k in d\<close> and \<^verbatim>\<open>d[k] = v\<close> on a dict.\<close>

definition getitem :: "dict \<Rightarrow> string \<Rightarrow> error + json" where
  "getitem d k = (case map_of d k of None \<Rightarrow> Inl (KeyError k) | Some v \<Rightarrow> Inr v)"

definition contains :: "dict \<Rightarrow> string \<Rightarrow> bool" where
  "contains d k = (map_of d k \<noteq> None)"

fun setitem :: "dict \<Rightarrow> string \<Rightarrow> json \<Rightarrow> dict" where
  "setitem [] k v = [(k, v)]"
| "setitem ((k', v') # d) k v = (if k' = k then (k, v) # d else (k', v') # setitem d k v)"

text \<open>
  \<^verbatim>\<open>x[k]\<close> and \<^verbatim>\<open>k in x\<close> for a string \<open>k\<close> and any JSON value \<open>x\<close>: a list and a string
  cannot be indexed by a string; \<^verbatim>\<open>in\<close> is membership in a list and the substring test
  on a string, and raises on a number, a boolean and \<^verbatim>\<open>None\<close>.
\<close>

fun py_getitem :: "json \<Rightarrow> string \<Rightarrow> error + json" where
  "py_getitem (JObj d) k = getitem d k"
| "py_getitem x k = Inl TypeError"

fun is_substring :: "string \<Rightarrow> string \<Rightarrow> bool" where
  "is_substring k [] = (k = [])"
| "is_substring k (c # cs) = (take (length k) (c # cs) = k \<or> is_substring k cs)"

fun py_in :: "string \<Rightarrow> json \<Rightarrow> error + bool" where
  "py_in k (JObj d) = Inr (contains d k)"
| "py_in k (JArr xs) = Inr (JStr k \<in> set xs)"
| "py_in k (JStr s) = Inr (is_substring k s)"
| "py_in k x = Inl TypeError"

text \<open>\<^verbatim>\<open>'%s' % x\<close> and \<^verbatim>\<open>'{}'.format(x)\<close>.\<close>

fun py_format :: "env \<Rightarrow> json \<Rightarrow> string" where
  "py_format env (JStr s) = s"
| "py_format env (JNum n) = str_int n"
| "py_format env JNull = ''None''"
| "py_format env (JBool b) = (if b then ''True'' else ''False'')"
| "py_format env x = py_repr env x"

subsection \<open>The retry executor\<close>

text \<open>
  Modelled from the spec: \<^verbatim>\<open>util.retry\<close> (\<^verbatim>\<open>retry\<close> and the decorator \<^verbatim>\<open>retriable\<close>, imported
  from \<^verbatim>\<open>../tools/lib/python\<close>) is not among the sources. The spec (4.1): run the
  operation; on failure, sleep for \<open>min (base_sleep * 2^(k-1)) max_sleep\<close> before attempt
  \<open>k + 1\<close>; after exhausting the attempts, propagate the last error unchanged. The
  arguments a call site leaves out are the parameter \<open>default_policy\<close>.
\<close>

function retry_from :: "nat \<Rightarrow> policy \<Rightarrow> 'a action \<Rightarrow> 'a action" where
  "retry_from k pol operation w =
     (case operation w of
        (Inr x, w') \<Rightarrow> (Inr x, w')
      | (Inl e, w') \<Rightarrow>
          if attempts pol \<le> k then (Inl e, w')
          else retry_from (Suc k) pol operation
                 (sleep (min (sleeptime pol * 2 ^ (k - 1)) (max_sleeptime pol)) w'))"
  by pat_completeness auto
termination
  by (relation "measure (\<lambda>(k, pol, operation, w). attempts pol - k)") auto

declare retry_from.simps [simp del]

definition retry :: "policy \<Rightarrow> 'a action \<Rightarrow> 'a action" where
  "retry pol operation = retry_from 1 pol operation"

subsection \<open>Downloading\<close>

text \<open>
  \<^verbatim>\<open>
  def get_hash(content, hash_type="md5"):
      h = hashlib.new(hash_type)
      h.update(content)
      return h.hexdigest()
  \<close>
\<close>

definition get_hash :: "env \<Rightarrow> string \<Rightarrow> string \<Rightarrow> string" where
  "get_hash env content hash_type = hashlib env hash_type content"

definition requests_get :: "env \<Rightarrow> string \<Rightarrow> response action" where
  "requests_get env url w =
     (net env url (requests_made w),
      emit (HttpGet url) (w\<lparr>requests_made := Suc (requests_made w)\<rparr>))"

text \<open>
  The body of \<^verbatim>\<open>download\<close>, one attempt. \<^verbatim>\<open>raise_for_status\<close> raises on a status from 400
  to 599; \<^verbatim>\<open>open(dest, 'wb')\<close> and the writes leave the chunks in the file; the header
  names of \<^verbatim>\<open>r.headers\<close> are in lower case.
  \<^verbatim>\<open>
      r = requests.get(url)
      r.raise_for_status()
      bytes_downloaded = 0
      with open(dest, 'wb') as fd:
          for chunk in r.iter_content(4096):
              fd.write(chunk)
              bytes_downloaded += len(chunk)
      if 'content-length' in r.headers:
          if bytes_downloaded != int(r.headers['content-length']):
              raise IOError('Unexpected number of bytes downloaded')
      if mode:
          os.chmod(dest, mode)
  \<close>
\<close>

definition download_check :: "env \<Rightarrow> response \<Rightarrow> int \<Rightarrow> world \<Rightarrow> (error + unit) \<times> world" where
  "download_check env r bytes_downloaded w =
     (case headers r ''content-length'' of
        None \<Rightarrow> (Inr (), w)
      | Some cl \<Rightarrow>
          (let w1 = log_debug ''Content-Length: %s bytes'' [JStr cl] w in
           case parse_int env cl of
             None \<Rightarrow> (Inl ValueError, w1)
           | Some n \<Rightarrow>
               if bytes_downloaded \<noteq> n
               then (Inl (IOError ''Unexpected number of bytes downloaded''), w1)
               else (Inr (), w1)))"

definition download_once :: "env \<Rightarrow> string \<Rightarrow> string \<Rightarrow> int option \<Rightarrow> unit action" where
  "download_once env url dest mode w =
     (case requests_get env url (log_debug ''Downloading %s to %s'' [JStr url, JStr dest] w) of
        (Inl e, w1) \<Rightarrow> (Inl e, w1)
      | (Inr r, w1) \<Rightarrow>
          if 400 \<le> status_code r \<and> status_code r < 600 then (Inl (HTTPError (status_code r)), w1)
          else
            (let bytes_downloaded = (\<Sum>chunk\<leftarrow>chunks r. int (length chunk));
                 w2 = w1\<lparr>files := (files w1)(dest \<mapsto> concat (chunks r))\<rparr>;
                 w3 = log_debug ''Downloaded %s bytes'' [JNum bytes_downloaded] w2
             in case download_check env r bytes_downloaded w3 of
                  (Inl e, w4) \<Rightarrow> (Inl e, w4)
                | (Inr u, w4) \<Rightarrow>
                    (case mode of
                       None \<Rightarrow> (Inr (), w4)
                     | Some m \<Rightarrow>
                         if m \<noteq> 0
                         then (Inr (), emit (Chmod dest m)
                                 (log_debug ''chmod %o %s'' [JNum m, JStr dest] w4))
                         else (Inr (), w4))))"

text \<open>\<^verbatim>\<open>@retriable()\<close>: every call of \<^verbatim>\<open>download\<close> runs the body under \<^verbatim>\<open>retry\<close>.\<close>

definition download :: "env \<Rightarrow> string \<Rightarrow> string \<Rightarrow> int option \<Rightarrow> unit action" where
  "download env url dest mode = retry (default_policy env) (download_once env url dest mode)"

text \<open>
  \<^verbatim>\<open>
  def verify_signature(mar, signature):
      log.info("Checking %s signature", mar)
      m = MarFile(mar, signature_versions=[(1, signature)])
      m.verify_signatures()
  \<close>
\<close>

definition verify_signature :: "env \<Rightarrow> string \<Rightarrow> string \<Rightarrow> unit action" where
  "verify_signature env mar signature w =
     (let w1 = log_info ''Checking %s signature'' [JStr mar] w in
      case files w1 mar of
        None \<Rightarrow> (Inl (IOError mar), w1)
      | Some data \<Rightarrow>
          if signature_ok env data signature then (Inr (), w1) else (Inl VerificationError, w1))"

subsection \<open>The blob store\<close>

text \<open>
  \<^verbatim>\<open>bucket.get_key(name)\<close>, \<^verbatim>\<open>key.set_contents_from_filename(dest, replace=False)\<close> (the stored
  object, or \<open>None\<close> when the name is taken: boto returns the length, or \<^verbatim>\<open>None\<close>),
  \<^verbatim>\<open>bucket.set_canned_acl\<close> and \<^verbatim>\<open>key.get_contents_as_string()\<close>. Before the write looks
  the name up, the object a concurrent publisher is creating under it lands.
\<close>

definition get_key :: "string \<Rightarrow> world \<Rightarrow> s3key option \<times> world" where
  "get_key name w = (bucket w name, emit (GetKey name) w)"

definition concurrent_writer :: "string \<Rightarrow> world \<Rightarrow> world" where
  "concurrent_writer name w =
     (case racing w name of
        None \<Rightarrow> w
      | Some c \<Rightarrow>
          (case bucket w name of
             Some k \<Rightarrow> w\<lparr>racing := (racing w)(name := None)\<rparr>
           | None \<Rightarrow>
               w\<lparr>bucket := (bucket w)(name \<mapsto>
                    \<lparr>contents = c, version_id = next_version w, acl = ''private''\<rparr>),
                 racing := (racing w)(name := None),
                 next_version := Suc (next_version w)\<rparr>))"

definition set_contents_from_filename :: "string \<Rightarrow> string \<Rightarrow> world \<Rightarrow> (error + s3key option) \<times> world" where
  "set_contents_from_filename name filename w =
     (case files w filename of
        None \<Rightarrow> (Inl (IOError filename), w)
      | Some data \<Rightarrow>
          (let w1 = concurrent_writer name w in
           case bucket w1 name of
             Some k \<Rightarrow> (Inr None, emit (PutIfAbsent name False) w1)
           | None \<Rightarrow>
               (let k = \<lparr>contents = data, version_id = next_version w1, acl = ''private''\<rparr>
                in (Inr (Some k),
                    emit (PutIfAbsent name True)
                      (w1\<lparr>bucket := (bucket w1)(name \<mapsto> k),
                          next_version := Suc (next_version w1)\<rparr>)))))"

definition set_canned_acl :: "string \<Rightarrow> string \<Rightarrow> nat \<Rightarrow> world \<Rightarrow> world" where
  "set_canned_acl acl_str key_name v w =
     emit (SetAcl acl_str key_name v)
       (case bucket w key_name of
          None \<Rightarrow> w
        | Some k \<Rightarrow>
            if version_id k = v then w\<lparr>bucket := (bucket w)(key_name \<mapsto> k\<lparr>acl := acl_str\<rparr>)\<rparr>
            else w)"

definition get_contents_as_string :: "string \<Rightarrow> s3key \<Rightarrow> world \<Rightarrow> string \<times> world" where
  "get_contents_as_string name k w = (contents k, emit (ReadKey name) w)"

subsection \<open>Publishing\<close>

text \<open>
  The loop of \<^verbatim>\<open>verify_copy_to_s3\<close> over the candidate names:
  \<^verbatim>\<open>
      for name in possible_names(mar_dest, 10):
          key = bucket.get_key(name)
          if not key:
              key = bucket.new_key(name)
              length = key.set_contents_from_filename(dest, replace=False)
              if length is None:
                  continue
              else:
                  bucket.set_canned_acl(acl_str='public-read', key_name=name,
                                        version_id=key.version_id)
                  return key.generate_url(expires_in=0, query_auth=False,
                                          version_id=key.version_id)
          else:
              if get_hash(key.get_contents_as_string()) == \
                      get_hash(open(dest).read()):
                  return key.generate_url(expires_in=0, query_auth=False,
                                          version_id=key.version_id)
      raise RuntimeError("Cannot generate a unique name for %s", mar_dest)
  \<close>
\<close>

fun verify_copy_to_s3_loop ::
  "env \<Rightarrow> string \<Rightarrow> string \<Rightarrow> string \<Rightarrow> string list \<Rightarrow> world \<Rightarrow> (error + string) \<times> world" where
  "verify_copy_to_s3_loop env bucket_name mar_dest dest [] w =
     (Inl (RuntimeError [''Cannot generate a unique name for %s'', mar_dest]), w)"
| "verify_copy_to_s3_loop env bucket_name mar_dest dest (name # names) w =
     (case get_key name (log_info ''Checking if %s already exists'' [JStr name] w) of
        (None, w1) \<Rightarrow>
          (case set_contents_from_filename name dest
                  (log_info ''Uploading to %s...'' [JStr name] w1) of
             (Inl e, w2) \<Rightarrow> (Inl e, w2)
           | (Inr None, w2) \<Rightarrow>
               verify_copy_to_s3_loop env bucket_name mar_dest dest names
                 (log_warn ''Name race condition using %s, trying again...'' [JStr name] w2)
           | (Inr (Some k), w2) \<Rightarrow>
               (Inr (generate_url env bucket_name name (version_id k)),
                set_canned_acl ''public-read'' name (version_id k) w2))
      | (Some k, w1) \<Rightarrow>
          (case get_contents_as_string name k w1 of
             (remote, w2) \<Rightarrow>
               (case files w2 dest of
                  None \<Rightarrow> (Inl (IOError dest), w2)
                | Some local \<Rightarrow>
                    if get_hash env remote ''md5'' = get_hash env local ''md5''
                    then (Inr (generate_url env bucket_name name (version_id k)),
                          log_info ''%s has the same MD5 checksum, not uploading...''
                            [JStr name] w2)
                    else verify_copy_to_s3_loop env bucket_name mar_dest dest names
                           (log_info
                              ''%s already exists with different checksum, trying another one...''
                              [JStr name] w2))))"

text \<open>
  The lines before the loop: the temporary file, the download and the signature check.
  \<^verbatim>\<open>
      _, dest = tempfile.mkstemp()
      download(mar_url, dest)
      if not os.getenv("MOZ_DISABLE_MAR_CERT_VERIFICATION"):
          verify_signature(dest, signing_cert)
  \<close>
  \<^verbatim>\<open>mkstemp\<close> makes an empty file under a name it has not used.
\<close>

definition mkstemp :: "world \<Rightarrow> string \<times> world" where
  "mkstemp w =
     (let dest = ''/tmp/tmp'' @ str_nat (tmp_count w)
      in (dest, w\<lparr>files := (files w)(dest \<mapsto> []), tmp_count := Suc (tmp_count w)\<rparr>))"

definition verification_enabled :: "env \<Rightarrow> bool" where
  "verification_enabled env =
     (case moz_disable_mar_cert_verification env of None \<Rightarrow> True | Some v \<Rightarrow> v = [])"

definition stage :: "env \<Rightarrow> string \<Rightarrow> string \<Rightarrow> string action" where
  "stage env mar_url signing_cert w =
     (case mkstemp w of
        (dest, w1) \<Rightarrow>
          (case download env mar_url dest None
                  (log_info ''Downloading %s to %s...'' [JStr mar_url, JStr dest] w1) of
             (Inl e, w2) \<Rightarrow> (Inl e, w2)
           | (Inr u, w2) \<Rightarrow>
               (let w3 = log_info ''Verifying the signature...'' [] w2 in
                if verification_enabled env then
                  (case verify_signature env dest signing_cert w3 of
                     (Inl e, w4) \<Rightarrow> (Inl e, w4)
                   | (Inr u, w4) \<Rightarrow> (Inr dest, w4))
                else (Inr dest, w3))))"

text \<open>
  \<^verbatim>\<open>verify_copy_to_s3(bucket_name, aws_access_key_id, aws_secret_access_key, mar_url,
  mar_dest, signing_cert)\<close>. The connection and \<^verbatim>\<open>get_bucket\<close> give the bucket of the world.
\<close>

definition verify_copy_to_s3 ::
  "env \<Rightarrow> string \<Rightarrow> string \<Rightarrow> string \<Rightarrow> string \<Rightarrow> string \<Rightarrow> string \<Rightarrow> string action" where
  "verify_copy_to_s3 env bucket_name aws_access_key_id aws_secret_access_key
       mar_url mar_dest signing_cert w =
     (case stage env mar_url signing_cert w of
        (Inl e, w1) \<Rightarrow> (Inl e, w1)
      | (Inr dest, w1) \<Rightarrow>
          verify_copy_to_s3_loop env bucket_name mar_dest dest (possible_names mar_dest 10) w1)"

subsection \<open>The task definition\<close>

text \<open>
  \<^verbatim>\<open>
  def verify_task_schema(task_definition):
      task_reqs = ('parent_task_artifacts_url', 'signing_cert')
      for req in task_reqs:
          if req not in task_definition['payload']:
              raise KeyError('%s missing from taskdef!' % req)
      signing_keys = ('nightly', 'release', 'dep')
      if task_definition['payload']['signing_cert'] not in signing_keys:
          raise KeyError('%s invalid certificate name. Specify nightly, release, or dep.'
                         % task_definition['payload']['signing_cert'])
  \<close>
\<close>

fun check_task_reqs :: "json \<Rightarrow> string list \<Rightarrow> error + unit" where
  "check_task_reqs task_definition [] = Inr ()"
| "check_task_reqs task_definition (req # reqs) =
     ebind (py_getitem task_definition ''payload'') (\<lambda>payload.
     ebind (py_in req payload) (\<lambda>present.
       if \<not> present then Inl (KeyError (req @ '' missing from taskdef!''))
       else check_task_reqs task_definition reqs))"

definition verify_task_schema :: "env \<Rightarrow> json \<Rightarrow> error + unit" where
  "verify_task_schema env task_definition =
     ebind (check_task_reqs task_definition [''parent_task_artifacts_url'', ''signing_cert''])
       (\<lambda>u.
     ebind (py_getitem task_definition ''payload'') (\<lambda>payload.
     ebind (py_getitem payload ''signing_cert'') (\<lambda>cert.
       if cert \<notin> set [JStr ''nightly'', JStr ''release'', JStr ''dep'']
       then Inl (KeyError (py_format env cert @
                 '' invalid certificate name. Specify nightly, release, or dep.''))
       else Inr ())))"

text \<open>\<^verbatim>\<open>os.path.join(a, b)\<close> (posixpath) for two components.\<close>

definition os_path_join :: "string \<Rightarrow> string \<Rightarrow> string" where
  "os_path_join a b =
     (if take 1 b = ''/'' then b
      else if a = [] \<or> drop (length a - 1) a = ''/'' then a @ b
      else a @ ''/'' @ b)"

text \<open>
  \<^verbatim>\<open>load_task\<close> on the parsed file; \<open>bin_directory\<close> is
  \<^verbatim>\<open>os.path.dirname(os.path.abspath(__file__))\<close>.
  \<^verbatim>\<open>
      verify_task_schema(task_definition)
      parent_url = task_definition['payload']['parent_task_artifacts_url']
      signing_cert_name = task_definition['payload']['signing_cert']
      signing_cert = os.path.join(bin_directory,"../keys/{}.pubkey".format(signing_cert_name))
      return parent_url, signing_cert
  \<close>
\<close>

definition load_task :: "env \<Rightarrow> string \<Rightarrow> json \<Rightarrow> error + json \<times> string" where
  "load_task env bin_directory task_definition =
     ebind (verify_task_schema env task_definition) (\<lambda>u.
     ebind (py_getitem task_definition ''payload'') (\<lambda>payload.
     ebind (py_getitem payload ''parent_task_artifacts_url'') (\<lambda>parent_url.
     ebind (py_getitem task_definition ''payload'') (\<lambda>payload'.
     ebind (py_getitem payload' ''signing_cert'') (\<lambda>signing_cert_name.
       Inr (parent_url,
            os_path_join bin_directory
              (''../keys/'' @ py_format env signing_cert_name @ ''.pubkey'')))))))"

subsection \<open>Submission\<close>

text \<open>
  The keyword arguments of a call, evaluated from left to right: a field of the entry
  (\<^verbatim>\<open>e["platform"]\<close>, which raises when the field is missing) or a value at hand.
\<close>

datatype arg = Field string | Given json

fun eval_kwargs :: "dict \<Rightarrow> (string \<times> arg) list \<Rightarrow> error + dict" where
  "eval_kwargs e [] = Inr []"
| "eval_kwargs e ((param, Field k) # ps) =
     ebind (getitem e k) (\<lambda>v. ebind (eval_kwargs e ps) (\<lambda>kw. Inr ((param, v) # kw)))"
| "eval_kwargs e ((param, Given v) # ps) =
     ebind (eval_kwargs e ps) (\<lambda>kw. Inr ((param, v) # kw))"

datatype style = ReleaseStyle | NightlyStyle

text \<open>\<^verbatim>\<open>submitter.run(**kwargs)\<close> of a \<^verbatim>\<open>ReleaseSubmitterV4\<close> or a \<^verbatim>\<open>NightlySubmitterV4\<close>.\<close>

definition run_submitter :: "env \<Rightarrow> style \<Rightarrow> dict \<Rightarrow> unit action" where
  "run_submitter env st kwargs w =
     (let w1 = emit (case st of ReleaseStyle \<Rightarrow> ReleaseRun kwargs | NightlyStyle \<Rightarrow> NightlyRun kwargs)
                 (w\<lparr>submissions := Suc (submissions w)\<rparr>)
      in case submitter_run env (submissions w) of
           None \<Rightarrow> (Inr (), w1)
         | Some err \<Rightarrow> (Inl err, w1))"

text \<open>
  The release-style branch (lines 203 to 217):
  \<^verbatim>\<open>
      partial_info[0]["previousVersion"] = e["previousVersion"]
      partial_info[0]["previousBuildNumber"] = e["previousBuildNumber"]
      submitter = ReleaseSubmitterV4(api_root=args.api_root, auth=auth, dummy=args.dummy)
      retry(lambda: submitter.run(
          platform=e["platform"], productName=e["appName"], version=e["toVersion"],
          build_number=e["toBuildNumber"], appVersion=e["version"], extVersion=e["version"],
          buildID=e["to_buildid"], locale=e["locale"], hashFunction='sha512',
          partialInfo=partial_info, completeInfo=complete_info))
  \<close>
\<close>

definition release_call :: "env \<Rightarrow> dict \<Rightarrow> dict \<Rightarrow> dict \<Rightarrow> unit action" where
  "release_call env e partial_info complete_info =
     wbind (wlift (eval_kwargs e
              [(''platform'', Field ''platform''), (''productName'', Field ''appName''),
               (''version'', Field ''toVersion''), (''build_number'', Field ''toBuildNumber''),
               (''appVersion'', Field ''version''), (''extVersion'', Field ''version''),
               (''buildID'', Field ''to_buildid''), (''locale'', Field ''locale''),
               (''hashFunction'', Given (JStr ''sha512'')),
               (''partialInfo'', Given (JArr [JObj partial_info])),
               (''completeInfo'', Given (JArr [JObj complete_info]))]))
       (run_submitter env ReleaseStyle)"

definition release_style :: "env \<Rightarrow> args \<Rightarrow> string \<times> string \<Rightarrow> dict \<Rightarrow> dict \<Rightarrow> dict \<Rightarrow> unit action" where
  "release_style env args auth e partial_info complete_info =
     wbind (\<lambda>w. (Inr (), log_info ''Release style balrog submission'' [] w)) (\<lambda>u.
     wbind (wlift (getitem e ''previousVersion'')) (\<lambda>pv.
     wbind (wlift (getitem e ''previousBuildNumber'')) (\<lambda>pbn.
       retry (default_policy env)
         (release_call env e
            (setitem (setitem partial_info ''previousVersion'' pv) ''previousBuildNumber'' pbn)
            complete_info))))"

text \<open>
  The nightly-style branch (lines 219 to 251): the names, the two publications, and the
  submission
  \<^verbatim>\<open>
      retry(lambda: submitter.run(
          platform=e["platform"], buildID=e["to_buildid"],
          productName=e["appName"], branch=e["branch"],
          appVersion=e["version"], locale=e["locale"],
          hashFunction='sha512', extVersion=e["version"],
          partialInfo=partial_info, completeInfo=complete_info),
            attempts=30, sleeptime=10, max_sleeptime=60,
            )
  \<close>
\<close>

definition nightly_call :: "env \<Rightarrow> dict \<Rightarrow> dict \<Rightarrow> dict \<Rightarrow> unit action" where
  "nightly_call env e partial_info complete_info =
     wbind (wlift (eval_kwargs e
              [(''platform'', Field ''platform''), (''buildID'', Field ''to_buildid''),
               (''productName'', Field ''appName''), (''branch'', Field ''branch''),
               (''appVersion'', Field ''version''), (''locale'', Field ''locale''),
               (''hashFunction'', Given (JStr ''sha512'')),
               (''extVersion'', Field ''version''),
               (''partialInfo'', Given (JArr [JObj partial_info])),
               (''completeInfo'', Given (JArr [JObj complete_info]))]))
       (run_submitter env NightlyStyle)"

definition nightly_submit :: "env \<Rightarrow> dict \<Rightarrow> dict \<Rightarrow> dict \<Rightarrow> unit action" where
  "nightly_submit env e partial_info complete_info =
     retry \<lparr>attempts = 30, sleeptime = 10, max_sleeptime = 60\<rparr>
       (nightly_call env e partial_info complete_info)"

definition nightly_style ::
  "env \<Rightarrow> args \<Rightarrow> string \<times> string \<Rightarrow> string \<Rightarrow> string \<Rightarrow> dict \<Rightarrow> dict \<Rightarrow> dict \<Rightarrow> unit action" where
  "nightly_style env args auth parent_url signing_cert e partial_info complete_info =
     wbind (\<lambda>w. (Inr (), log_info ''Nightly style balrog submission'' [] w)) (\<lambda>u.
     wbind (wlift (getitem e ''mar'')) (\<lambda>mar.
     wbind (wlift (getitem e ''to_mar'')) (\<lambda>complete_mar_url.
     wbind (wlift (getitem e ''branch'')) (\<lambda>branch.
     wbind (wlift (getitem e ''to_buildid'')) (\<lambda>to_buildid.
     wbind (wlift (getitem e ''appName'')) (\<lambda>appName.
     wbind (wlift (getitem e ''version'')) (\<lambda>version.
     wbind (wlift (getitem e ''platform'')) (\<lambda>platform.
     wbind (wlift (getitem e ''locale'')) (\<lambda>locale.
       (let partial_mar_url = parent_url @ ''/'' @ py_format env mar;
            dest_prefix = py_format env branch @ ''/'' @ py_format env to_buildid;
            partial_mar_dest = dest_prefix @ ''/'' @ py_format env mar;
            complete_mar_filename =
              py_format env appName @ ''-'' @ py_format env branch @ ''-'' @
              py_format env version @ ''-'' @ py_format env platform @ ''-'' @
              py_format env locale @ ''.complete.mar'';
            complete_mar_dest = dest_prefix @ ''/'' @ complete_mar_filename
        in
     wbind (verify_copy_to_s3 env (s3_bucket args) (aws_key_id args) (aws_key_secret args)
              partial_mar_url partial_mar_dest signing_cert) (\<lambda>partial_url.
     wbind (verify_copy_to_s3 env (s3_bucket args) (aws_key_id args) (aws_key_secret args)
              (py_format env complete_mar_url) complete_mar_dest signing_cert) (\<lambda>complete_url.
     wbind (wlift (getitem e ''from_buildid'')) (\<lambda>from_buildid.
       nightly_submit env e
         (setitem (setitem partial_info ''url'' (JStr partial_url)) ''from_buildid'' from_buildid)
         (setitem complete_info ''url'' (JStr complete_url)))))))))))))))"

text \<open>
  The body of the loop of \<^verbatim>\<open>submit_releases\<close> for one entry \<open>e\<close>, and the loop.
  \<^verbatim>\<open>
      complete_info = [{"hash": e["to_hash"], "size": e["to_size"]}]
      partial_info = [{"hash": e["hash"], "size": e["size"]}]
      if "previousVersion" in e and "previousBuildNumber" in e:
          ...
      elif "from_buildid" in e and uploads_enabled:
          ...
      else:
          raise RuntimeError("Cannot determine Balrog submission style")
  \<close>
\<close>

definition submit_entry ::
  "env \<Rightarrow> args \<Rightarrow> string \<times> string \<Rightarrow> bool \<Rightarrow> string \<Rightarrow> string \<Rightarrow> dict \<Rightarrow> unit action" where
  "submit_entry env args auth uploads_enabled parent_url signing_cert e =
     wbind (wlift (getitem e ''to_hash'')) (\<lambda>to_hash.
     wbind (wlift (getitem e ''to_size'')) (\<lambda>to_size.
     wbind (wlift (getitem e ''hash'')) (\<lambda>hash.
     wbind (wlift (getitem e ''size'')) (\<lambda>size.
       (let complete_info = [(''hash'', to_hash), (''size'', to_size)];
            partial_info = [(''hash'', hash), (''size'', size)]
        in if contains e ''previousVersion'' \<and> contains e ''previousBuildNumber''
           then release_style env args auth e partial_info complete_info
           else if contains e ''from_buildid'' \<and> uploads_enabled
           then nightly_style env args auth parent_url signing_cert e partial_info complete_info
           else wlift (Inl (RuntimeError [''Cannot determine Balrog submission style''])))))))"

fun submit_releases ::
  "env \<Rightarrow> dict list \<Rightarrow> args \<Rightarrow> string \<times> string \<Rightarrow> bool \<Rightarrow> string \<Rightarrow> string \<Rightarrow> unit action" where
  "submit_releases env [] args auth uploads_enabled parent_url signing_cert w = (Inr (), w)"
| "submit_releases env (e # manifest) args auth uploads_enabled parent_url signing_cert w =
     (case submit_entry env args auth uploads_enabled parent_url signing_cert e w of
        (Inl err, w1) \<Rightarrow> (Inl err, w1)
      | (Inr u, w1) \<Rightarrow>
          submit_releases env manifest args auth uploads_enabled parent_url signing_cert w1)"

subsection \<open>Observations on the events\<close>

text \<open>
  \<open>extends_with P w w'\<close>: the world \<open>w'\<close> has the events of \<open>w\<close> and then events that
  all satisfy \<open>P\<close>. \<open>sleeps_of\<close>: the durations slept, in order. \<open>backoff pol k\<close>: the sleep
  after the failure of attempt \<open>k\<close>.
\<close>

definition extends_with :: "(event \<Rightarrow> bool) \<Rightarrow> world \<Rightarrow> world \<Rightarrow> bool" where
  "extends_with P w w' = (\<exists>evs. trace w' = trace w @ evs \<and> list_all P evs)"

fun sleeps_of :: "event list \<Rightarrow> int list" where
  "sleeps_of [] = []"
| "sleeps_of (Sleep s # evs) = s # sleeps_of evs"
| "sleeps_of (ev # evs) = sleeps_of evs"

fun is_nightly_run :: "event \<Rightarrow> bool" where
  "is_nightly_run (NightlyRun kw) = True"
| "is_nightly_run ev = False"

fun is_put :: "event \<Rightarrow> bool" where
  "is_put (PutIfAbsent name stored) = True"
| "is_put ev = False"

definition backoff :: "policy \<Rightarrow> nat \<Rightarrow> int" where
  "backoff pol k = min (sleeptime pol * 2 ^ (k - 1)) (max_sleeptime pol)"

fun is_release_attempt :: "event \<Rightarrow> bool" where
  "is_release_attempt (ReleaseRun kw) = True"
| "is_release_attempt (Sleep s) = True"
| "is_release_attempt ev = False"

text \<open>
  \<open>retried run base cap k n\<close>: the events of \<open>n\<close> runs of an operation under \<^verbatim>\<open>retry\<close>, the
  first of them attempt \<open>k\<close>: every run but the last has failed and is followed by the
  sleep \<open>min (base * 2^(k-1)) cap\<close>. \<open>quiet w w'\<close>: from \<open>w\<close> to \<open>w'\<close> no nightly-style
  submission was run.
\<close>

fun retried :: "event \<Rightarrow> int \<Rightarrow> int \<Rightarrow> nat \<Rightarrow> nat \<Rightarrow> event list" where
  "retried run base cap k 0 = []"
| "retried run base cap k (Suc n) =
     run # (if n = 0 then []
            else Sleep (min (base * 2 ^ (k - 1)) cap) # retried run base cap (Suc k) n)"

definition quiet :: "world \<Rightarrow> world \<Rightarrow> bool" where
  "quiet w w' =
     (extends_with (\<lambda>ev. \<not> is_nightly_run ev) w w' \<and> submissions w' = submissions w)"

subsection \<open>A scenario\<close>

text \<open>
  A world with an empty bucket and no files, and an environment in which every request is
  answered with the four bytes \<open>DATA\<close>, every signature verifies, the digest of a
  content is the content, and every submission succeeds. The entry is the one of the
  spec's end-to-end scenario.
\<close>

definition env0 :: env where
  "env0 =
     \<lparr>hashlib = (\<lambda>hash_type content. content),
      net = (\<lambda>url n. Inr \<lparr>status_code = 200, headers = Map.empty, chunks = [''DATA'']\<rparr>),
      parse_int = (\<lambda>s. None),
      signature_ok = (\<lambda>data key. True),
      moz_disable_mar_cert_verification = None,
      generate_url = (\<lambda>b name v. b @ ''/'' @ name @ ''?versionId='' @ str_nat v),
      submitter_run = (\<lambda>n. None),
      default_policy = \<lparr>attempts = 5, sleeptime = 60, max_sleeptime = 300\<rparr>,
      py_repr = (\<lambda>x. [])\<rparr>"

definition world0 :: world where
  "world0 =
     \<lparr>bucket = Map.empty, racing = Map.empty, next_version = 0, files = Map.empty,
      tmp_count = 0, requests_made = 0, submissions = 0, trace = []\<rparr>"

definition args0 :: args where
  "args0 =
     \<lparr>api_root = ''https://balrog/api'', dummy = False, s3_bucket = ''bkt'',
      aws_key_id = ''id'', aws_key_secret = ''secret''\<rparr>"

definition entry0 :: dict where
  "entry0 =
     [(''platform'', JStr ''linux64''), (''appName'', JStr ''app''),
      (''from_buildid'', JStr ''B1''), (''version'', JStr ''2.0''),
      (''to_buildid'', JStr ''B2''), (''branch'', JStr ''release''),
      (''locale'', JStr ''en-US''), (''mar'', JStr ''p.mar''),
      (''to_mar'', JStr ''https://x/c.mar''), (''hash'', JStr ''h1''), (''size'', JNum 100),
      (''to_hash'', JStr ''h2''), (''to_size'', JNum 200)]"

section \<open>Properties\<close>

subsection \<open>Basic facts\<close>

lemma world_simps [simp]:
  "trace (emit ev w) = trace w @ [ev]"
  "bucket (emit ev w) = bucket w"
  "racing (emit ev w) = racing w"
  "next_version (emit ev w) = next_version w"
  "files (emit ev w) = files w"
  "tmp_count (emit ev w) = tmp_count w"
  "requests_made (emit ev w) = requests_made w"
  "submissions (emit ev w) = submissions w"
  by (simp_all add: emit_def)

lemmas log_defs = log_debug_def log_info_def log_warn_def sleep_def

lemma ebind_simps [simp]: "ebind (Inl e) f = Inl e" "ebind (Inr x) f = f x"
  by (simp_all add: ebind_def)

lemma wbind_wlift [simp]:
  "wbind (wlift (Inl e)) f w = (Inl e, w)"
  "wbind (wlift (Inr x)) f w = f x w"
  by (simp_all add: wbind_def wlift_def)

lemma getitem_contains: "contains e k \<Longrightarrow> \<exists>v. getitem e k = Inr v"
  by (auto simp: contains_def getitem_def)

lemma pair_of_fst: "fst p = a \<Longrightarrow> p = (a, snd p)"
  by (cases p) simp

subsection \<open>Candidate names\<close>

lemma digit_char_inj: "a < 10 \<Longrightarrow> b < 10 \<Longrightarrow> digit_char a = digit_char b \<Longrightarrow> a = b"
proof -
  assume a: "a < 10" and b: "b < 10" and e: "digit_char a = digit_char b"
  from e have "(of_char (digit_char a) :: nat) = of_char (digit_char b)" by simp
  with a b show ?thesis by (simp add: digit_char_def)
qed

lemma str_nat_ne: "str_nat n \<noteq> []"
  by (induction n rule: str_nat.induct) (subst str_nat.simps, simp)

lemma str_nat_inj: "str_nat n = str_nat m \<Longrightarrow> n = m"
proof (induction n arbitrary: m rule: str_nat.induct)
  case (1 n)
  show ?case
  proof (cases "n < 10")
    case True
    show ?thesis
    proof (cases "m < 10")
      case m: True
      from "1.prems" True m have "digit_char n = digit_char m"
        by (simp add: str_nat.simps[of n] str_nat.simps[of m])
      with True m show ?thesis using digit_char_inj by blast
    next
      case m: False
      from "1.prems" True m have "str_nat (m div 10) = []"
        by (simp add: str_nat.simps[of n] str_nat.simps[of m])
      with str_nat_ne show ?thesis by blast
    qed
  next
    case False
    show ?thesis
    proof (cases "m < 10")
      case m: True
      from "1.prems" False m have "str_nat (n div 10) = []"
        by (simp add: str_nat.simps[of n] str_nat.simps[of m])
      with str_nat_ne show ?thesis by blast
    next
      case m: False
      from "1.prems" False m have e: "str_nat (n div 10) = str_nat (m div 10)"
        and d: "digit_char (n mod 10) = digit_char (m mod 10)"
        by (simp_all add: str_nat.simps[of n] str_nat.simps[of m])
      from "1.IH"[OF False e] have "n div 10 = m div 10" .
      moreover from d have "n mod 10 = m mod 10" using digit_char_inj[of "n mod 10" "m mod 10"] by simp
      ultimately show ?thesis by (metis div_mult_mod_eq)
    qed
  qed
qed

lemma splitext_scan_append: "splitext_scan p i d = (a, b) \<Longrightarrow> a @ b = p"
  by (induction p i d rule: splitext_scan.induct)
     (subst (asm) splitext_scan.simps, auto split: if_splits)

lemma splitext_append: "splitext p = (a, b) \<Longrightarrow> a @ b = p"
  by (auto simp: splitext_def Let_def splitext_scan_append split: if_splits)

lemma str_int_inj: "0 \<le> n \<Longrightarrow> 0 \<le> m \<Longrightarrow> str_int n = str_int m \<Longrightarrow> n = m"
  using str_nat_inj[of "nat n" "nat m"] by (simp add: str_int_def)

lemma rfind_bounds: "- 1 \<le> rfind p c \<and> rfind p c < int (length p)"
  by (induction p) (auto simp: Let_def)

lemma rfind_absent: "rfind p c < 0 \<Longrightarrow> c \<notin> set p"
  by (induction p) (auto simp: Let_def split: if_splits)

lemma rfind_last:
  "0 \<le> rfind p c \<Longrightarrow>
     take 1 (drop (nat (rfind p c)) p) = [c] \<and> c \<notin> set (drop (nat (rfind p c) + 1) p)"
proof (induction p)
  case Nil
  then show ?case by simp
next
  case (Cons x xs)
  show ?case
  proof (cases "0 \<le> rfind xs c")
    case True
    with Cons.IH show ?thesis by (simp add: Let_def nat_add_distrib)
  next
    case False
    then have "c \<notin> set xs" using rfind_absent[of xs c] by simp
    with False Cons.prems show ?thesis by (simp add: Let_def split: if_splits)
  qed
qed

lemma splitext_scan_result:
  "splitext_scan p i d = (a, b) \<Longrightarrow> (a, b) = (p, []) \<or> (a, b) = (take (nat d) p, drop (nat d) p)"
  by (induction p i d rule: splitext_scan.induct)
     (subst (asm) splitext_scan.simps, auto split: if_splits)

lemma splitext_ext:
  assumes "splitext p = (a, b)"
  shows "b = [] \<or> (\<exists>rest. b = CHR ''.'' # rest \<and> CHR ''.'' \<notin> set rest \<and> CHR ''/'' \<notin> set rest)"
proof (cases "rfind p CHR ''.'' > rfind p CHR ''/''")
  case False
  with assms show ?thesis by (simp add: splitext_def Let_def)
next
  case True
  let ?d = "rfind p CHR ''.''" and ?s = "rfind p CHR ''/''"
  from assms True have "splitext_scan p (?s + 1) ?d = (a, b)" by (simp add: splitext_def Let_def)
  from splitext_scan_result[OF this] show ?thesis
  proof
    assume "(a, b) = (p, [])" then show ?thesis by simp
  next
    assume ab: "(a, b) = (take (nat ?d) p, drop (nat ?d) p)"
    have d0: "0 \<le> ?d" using True rfind_bounds[of p "CHR ''/''"] by simp
    from rfind_last[OF d0] have l: "take 1 (drop (nat ?d) p) = ''.''"
        "CHR ''.'' \<notin> set (drop (nat ?d + 1) p)" by simp_all
    from l(1) obtain rest where r: "drop (nat ?d) p = CHR ''.'' # rest"
      by (cases "drop (nat ?d) p") auto
    then have rest: "rest = drop (nat ?d + 1) p"
      by (metis Suc_eq_plus1 drop_Suc drop_drop list.sel(3) tl_drop add.commute)
    have "CHR ''/'' \<notin> set (drop (nat ?d) p)"
    proof (cases "0 \<le> ?s")
      case True
      from rfind_last[OF True] have "CHR ''/'' \<notin> set (drop (nat ?s + 1) p)" by simp
      moreover have "set (drop (nat ?d) p) \<subseteq> set (drop (nat ?s + 1) p)"
        using \<open>?d > ?s\<close> True by (intro set_drop_subset_set_drop) simp
      ultimately show ?thesis by blast
    next
      case False
      then have "CHR ''/'' \<notin> set p" using rfind_absent[of p "CHR ''/''"] by simp
      then show ?thesis using in_set_dropD by fast
    qed
    with r l(2) rest ab show ?thesis by auto
  qed
qed

lemma possible_names_length: "0 \<le> N \<Longrightarrow> length (possible_names n N) = nat N + 1"
  by (simp add: possible_names_def split: prod.splits)

text \<open>
  C4. For every initial name and every probe bound \<open>N \<ge> 0\<close>, \<open>possible_names\<close> returns
  exactly \<open>N + 1\<close> names, pairwise distinct, the first being the initial name unmodified
  and the \<open>i\<close>-th (\<open>1 \<le> i \<le> N\<close>) being the initial name with \<open>-i\<close> inserted before
  its extension: the part that \<open>splitext\<close> splits off, which is empty or a dot followed by
  characters other than the dot and the slash.
\<close>

theorem possible_names_spec:
  assumes "0 \<le> N"
  shows "length (possible_names initial_name N) = nat N + 1
       \<and> distinct (possible_names initial_name N)
       \<and> possible_names initial_name N ! 0 = initial_name
       \<and> (\<forall>i\<in>{1..nat N}. possible_names initial_name N ! i =
             fst (splitext initial_name) @ ''-'' @ str_int (int i) @ snd (splitext initial_name))
       \<and> fst (splitext initial_name) @ snd (splitext initial_name) = initial_name
       \<and> (snd (splitext initial_name) = [] \<or>
            (\<exists>rest. snd (splitext initial_name) = CHR ''.'' # rest
                \<and> CHR ''.'' \<notin> set rest \<and> CHR ''/'' \<notin> set rest))"
proof -
  obtain prefix ext where sp: "splitext initial_name = (prefix, ext)" by (cases "splitext initial_name")
  then have pe: "prefix @ ext = initial_name" by (rule splitext_append)
  let ?f = "\<lambda>n. prefix @ ''-'' @ str_int n @ ext"
  have pn: "possible_names initial_name N = initial_name # map ?f [1..N]"
    by (simp add: possible_names_def sp)
  have len: "length (possible_names initial_name N) = nat N + 1"
    using assms by (simp add: pn)
  have inj: "inj_on ?f (set [1..N])"
    by (rule inj_onI) (auto dest: str_int_inj[rotated 2])
  have notin: "initial_name \<notin> set (map ?f [1..N])"
  proof
    assume "initial_name \<in> set (map ?f [1..N])"
    then obtain n where "initial_name = ?f n" by auto
    then have "length (prefix @ ext) = length (?f n)" using pe by simp
    then show False by simp
  qed
  have dist: "distinct (possible_names initial_name N)"
    using inj notin by (simp add: pn distinct_map)
  have nth: "\<forall>i\<in>{1..nat N}. possible_names initial_name N ! i = ?f (int i)"
  proof
    fix i assume i: "i \<in> {1..nat N}"
    then obtain j where j: "i = Suc j" "j < nat N" by (cases i) auto
    then have "[1..N] ! j = 1 + int j" by (intro nth_upto) simp
    with j show "possible_names initial_name N ! i = ?f (int i)"
      by (simp add: pn add.commute)
  qed
  show ?thesis using len dist nth pe splitext_ext[OF sp] by (simp add: pn sp)
qed

theorem possible_names_spec_witness:
  "(0::int) \<le> 2 \<and> length (possible_names ''b/p.mar'' 2) = 3
     \<and> distinct (possible_names ''b/p.mar'' 2)
     \<and> possible_names ''b/p.mar'' 2 = [''b/p.mar'', ''b/p-1.mar'', ''b/p-2.mar'']"
proof -
  have v: "possible_names ''b/p.mar'' 2 = [''b/p.mar'', ''b/p-1.mar'', ''b/p-2.mar'']"
    by code_simp
  show ?thesis using possible_names_spec[of 2 "''b/p.mar''"] by (simp add: v)
qed

subsection \<open>The task definition\<close>

lemma vts_dict:
  assumes "map_of d ''payload'' = Some (JObj pl)"
  shows "verify_task_schema env (JObj d) =
     (if \<not> contains pl ''parent_task_artifacts_url''
      then Inl (KeyError ''parent_task_artifacts_url missing from taskdef!'')
      else if \<not> contains pl ''signing_cert''
      then Inl (KeyError ''signing_cert missing from taskdef!'')
      else if the (map_of pl ''signing_cert'') \<notin> {JStr ''nightly'', JStr ''release'', JStr ''dep''}
      then Inl (KeyError (py_format env (the (map_of pl ''signing_cert'')) @
                 '' invalid certificate name. Specify nightly, release, or dep.''))
      else Inr ())"
  using assms by (auto simp: verify_task_schema_def getitem_def contains_def)

lemma vts_not_dict_payload:
  assumes "py_getitem td ''payload'' = Inr pl" "\<forall>d. pl \<noteq> JObj d"
  shows "isl (verify_task_schema env td)"
  using assms by (cases pl) (auto simp: verify_task_schema_def)

lemma vts_no_payload:
  assumes "py_getitem td ''payload'' = Inl e"
  shows "verify_task_schema env td = Inl e"
  using assms by (simp add: verify_task_schema_def)

lemma verify_task_schema_valid:
  "(verify_task_schema env td = Inr ()) =
     (\<exists>d pl c. td = JObj d \<and> map_of d ''payload'' = Some (JObj pl)
        \<and> contains pl ''parent_task_artifacts_url''
        \<and> map_of pl ''signing_cert'' = Some (JStr c)
        \<and> c \<in> {''nightly'', ''release'', ''dep''})"
proof (cases "py_getitem td ''payload''")
  case (Inl e)
  then have "verify_task_schema env td = Inl e" by (rule vts_no_payload)
  moreover from Inl have "\<not> (\<exists>d pl c. td = JObj d \<and> map_of d ''payload'' = Some (JObj pl)
        \<and> contains pl ''parent_task_artifacts_url''
        \<and> map_of pl ''signing_cert'' = Some (JStr c)
        \<and> c \<in> {''nightly'', ''release'', ''dep''})" by (auto simp: getitem_def)
  ultimately show ?thesis by simp
next
  case (Inr pl)
  then obtain d where td: "td = JObj d" and mp: "map_of d ''payload'' = Some pl"
    by (cases td) (auto simp: getitem_def split: option.splits)
  show ?thesis
  proof (cases "\<exists>p. pl = JObj p")
    case True
    then obtain p where p: "pl = JObj p" by blast
    show ?thesis unfolding td vts_dict[OF mp[unfolded p]]
      by (auto simp: mp p contains_def)
  next
    case False
    with Inr have "isl (verify_task_schema env td)" by (intro vts_not_dict_payload) auto
    moreover from False mp td have "\<not> (\<exists>d pl c. td = JObj d \<and> map_of d ''payload'' = Some (JObj pl)
        \<and> contains pl ''parent_task_artifacts_url''
        \<and> map_of pl ''signing_cert'' = Some (JStr c)
        \<and> c \<in> {''nightly'', ''release'', ''dep''})" by auto
    ultimately show ?thesis by auto
  qed
qed

lemma load_task_isl: "isl (load_task env dir td) = (verify_task_schema env td \<noteq> Inr ())"
proof (cases "verify_task_schema env td")
  case (Inl e)
  then show ?thesis by (simp add: load_task_def)
next
  case (Inr u)
  then obtain d pl c where "td = JObj d" "map_of d ''payload'' = Some (JObj pl)"
      "contains pl ''parent_task_artifacts_url''" "map_of pl ''signing_cert'' = Some (JStr c)"
    using verify_task_schema_valid[of env td] by auto
  then show ?thesis using Inr
    by (auto simp: load_task_def getitem_def contains_def split: option.splits)
qed

text \<open>
  C8. Schema verification succeeds exactly for a task definition whose payload is a dict
  with \<open>parent_task_artifacts_url\<close> and a \<open>signing_cert\<close> among \<open>nightly\<close>, \<open>release\<close>
  and \<open>dep\<close>; \<open>load_task\<close> fails exactly when the verification fails; and for a dict
  payload the failure is the \<open>KeyError\<close> of the schema check, which \<open>load_task\<close> passes on.
\<close>

theorem verify_task_schema_spec:
  "(verify_task_schema env task_definition = Inr ()) =
      (\<exists>d payload cert. task_definition = JObj d \<and> map_of d ''payload'' = Some (JObj payload)
          \<and> contains payload ''parent_task_artifacts_url''
          \<and> map_of payload ''signing_cert'' = Some (JStr cert)
          \<and> cert \<in> {''nightly'', ''release'', ''dep''})
   \<and> isl (load_task env bin_directory task_definition) =
        (verify_task_schema env task_definition \<noteq> Inr ())
   \<and> (\<forall>d payload. task_definition = JObj d \<and> map_of d ''payload'' = Some (JObj payload)
          \<and> verify_task_schema env task_definition \<noteq> Inr ()
        \<longrightarrow> (\<exists>msg. verify_task_schema env task_definition = Inl (KeyError msg)
               \<and> load_task env bin_directory task_definition = Inl (KeyError msg)))"
proof -
  have a: "(verify_task_schema env task_definition = Inr ()) =
      (\<exists>d payload cert. task_definition = JObj d \<and> map_of d ''payload'' = Some (JObj payload)
          \<and> contains payload ''parent_task_artifacts_url''
          \<and> map_of payload ''signing_cert'' = Some (JStr cert)
          \<and> cert \<in> {''nightly'', ''release'', ''dep''})"
    by (rule verify_task_schema_valid)
  have b: "isl (load_task env bin_directory task_definition) =
        (verify_task_schema env task_definition \<noteq> Inr ())"
    by (rule load_task_isl)
  have c: "\<exists>msg. verify_task_schema env task_definition = Inl (KeyError msg)
               \<and> load_task env bin_directory task_definition = Inl (KeyError msg)"
    if h: "task_definition = JObj d" "map_of d ''payload'' = Some (JObj payload)"
          "verify_task_schema env task_definition \<noteq> Inr ()" for d payload
  proof -
    from h(3) obtain msg where m: "verify_task_schema env task_definition = Inl (KeyError msg)"
      unfolding h(1) vts_dict[OF h(2)] by (auto split: if_splits)
    then have "load_task env bin_directory task_definition = Inl (KeyError msg)"
      by (simp add: load_task_def)
    with m show ?thesis by blast
  qed
  from a b c show ?thesis by blast
qed

theorem verify_task_schema_spec_witness:
  "\<forall>env. verify_task_schema env
      (JObj [(''payload'', JObj [(''parent_task_artifacts_url'', JStr ''https://queue/task/artifacts''),
                                 (''signing_cert'', JStr ''dep'')])]) = Inr ()
    \<and> (\<exists>msg. verify_task_schema env
      (JObj [(''payload'', JObj [(''parent_task_artifacts_url'', JStr ''https://queue/task/artifacts''),
                                 (''signing_cert'', JStr ''beta'')])]) = Inl (KeyError msg))"
proof
  fix env
  let ?good = "JObj [(''payload'', JObj [(''parent_task_artifacts_url'', JStr ''https://queue/task/artifacts''),
                                 (''signing_cert'', JStr ''dep'')])]"
  let ?bad = "JObj [(''payload'', JObj [(''parent_task_artifacts_url'', JStr ''https://queue/task/artifacts''),
                                 (''signing_cert'', JStr ''beta'')])]"
  have g: "verify_task_schema env ?good = Inr ()"
    using verify_task_schema_spec[of env ?good "''/app/bin''"] by (simp add: contains_def)
  have n: "verify_task_schema env ?bad \<noteq> Inr ()"
    using verify_task_schema_spec[of env ?bad "''/app/bin''"] by (simp add: contains_def)
  have b: "\<exists>msg. verify_task_schema env ?bad = Inl (KeyError msg)"
  proof -
    have "?bad = JObj [(''payload'', JObj [(''parent_task_artifacts_url'', JStr ''https://queue/task/artifacts''),
                                 (''signing_cert'', JStr ''beta'')])]
        \<and> map_of [(''payload'', JObj [(''parent_task_artifacts_url'', JStr ''https://queue/task/artifacts''),
                                 (''signing_cert'', JStr ''beta'')])] ''payload'' =
            Some (JObj [(''parent_task_artifacts_url'', JStr ''https://queue/task/artifacts''),
                                 (''signing_cert'', JStr ''beta'')])
        \<and> verify_task_schema env ?bad \<noteq> Inr ()"
      using n by simp
    with verify_task_schema_spec[of env ?bad "''/app/bin''", THEN conjunct2, THEN conjunct2,
           THEN spec, THEN spec, THEN mp, OF this]
    show ?thesis by (elim exE conjE) (rule exI)
  qed
  from g b show "verify_task_schema env ?good = Inr ()
      \<and> (\<exists>msg. verify_task_schema env ?bad = Inl (KeyError msg))"
    by simp
qed

subsection \<open>Downloading\<close>

lemma sum_list_int_length: "(\<Sum>chunk\<leftarrow>xs. int (length chunk)) = int (length (concat xs))"
  by (induction xs) simp_all

text \<open>
  C7. When the response passes \<open>raise_for_status\<close> and declares a content length that
  differs from the number of bytes written to the destination, the attempt raises
  \<open>IOError\<close> (the bytes stay in the file); \<open>download\<close>, being the attempt under
  \<open>retry\<close>, then sleeps and makes a second attempt when the policy has more than one,
  and fails with that error otherwise.
\<close>

theorem download_length_mismatch:
  assumes "net env url (requests_made w) = Inr r"
      and "\<not> (400 \<le> status_code r \<and> status_code r < 600)"
      and "headers r ''content-length'' = Some cl"
      and "parse_int env cl = Some n"
      and "int (length (concat (chunks r))) \<noteq> n"
  shows "fst (download_once env url dest mode w) = Inl (IOError ''Unexpected number of bytes downloaded'')
       \<and> files (snd (download_once env url dest mode w)) dest = Some (concat (chunks r))
       \<and> (if 1 < attempts (default_policy env)
          then download env url dest mode w =
               retry_from 2 (default_policy env) (download_once env url dest mode)
                 (sleep (min (sleeptime (default_policy env)) (max_sleeptime (default_policy env)))
                    (snd (download_once env url dest mode w)))
          else fst (download env url dest mode w) = Inl (IOError ''Unexpected number of bytes downloaded''))"
proof -
  let ?err = "Inl (IOError ''Unexpected number of bytes downloaded'') :: error + unit"
  have once: "fst (download_once env url dest mode w) = ?err"
    using assms
    by (simp add: download_once_def requests_get_def download_check_def log_defs
          sum_list_int_length Let_def)
  have fl: "files (snd (download_once env url dest mode w)) dest = Some (concat (chunks r))"
    using assms
    by (auto simp: download_once_def requests_get_def download_check_def log_defs
          sum_list_int_length Let_def)
  obtain w' where dw: "download_once env url dest mode w = (?err, w')"
    using once by (cases "download_once env url dest mode w") auto
  have "download env url dest mode w = retry_from 1 (default_policy env) (download_once env url dest mode) w"
    by (simp add: download_def retry_def)
  also have "\<dots> = (if attempts (default_policy env) \<le> 1 then (?err, w')
       else retry_from 2 (default_policy env) (download_once env url dest mode)
                 (sleep (min (sleeptime (default_policy env)) (max_sleeptime (default_policy env))) w'))"
    by (subst retry_from.simps) (simp add: dw numeral_2_eq_2)
  finally show ?thesis using once fl dw by (auto simp: not_le)
qed

theorem download_length_mismatch_witness:
  "fst (download_once
         (env0\<lparr>net := (\<lambda>url n. Inr \<lparr>status_code = 200,
                      headers = [''content-length'' \<mapsto> ''5''], chunks = [''DATA'']\<rparr>),
               parse_int := (\<lambda>s. if s = ''5'' then Some 5 else None)\<rparr>)
         ''https://x/p.mar'' ''/tmp/tmp0'' None world0) =
     Inl (IOError ''Unexpected number of bytes downloaded'')
   \<and> files (snd (download_once
         (env0\<lparr>net := (\<lambda>url n. Inr \<lparr>status_code = 200,
                      headers = [''content-length'' \<mapsto> ''5''], chunks = [''DATA'']\<rparr>),
               parse_int := (\<lambda>s. if s = ''5'' then Some 5 else None)\<rparr>)
         ''https://x/p.mar'' ''/tmp/tmp0'' None world0)) ''/tmp/tmp0'' = Some ''DATA''"
proof -
  let ?r = "\<lparr>status_code = 200, headers = [''content-length'' \<mapsto> ''5''], chunks = [''DATA'']\<rparr>"
  let ?env = "env0\<lparr>net := (\<lambda>url n. Inr ?r), parse_int := (\<lambda>s. if s = ''5'' then Some 5 else None)\<rparr>"
  have 1: "net ?env ''https://x/p.mar'' (requests_made world0) = Inr ?r" by simp
  have 2: "\<not> (400 \<le> status_code ?r \<and> status_code ?r < 600)" by simp
  have 3: "headers ?r ''content-length'' = Some ''5''" by simp
  have 4: "parse_int ?env ''5'' = Some 5" by simp
  have 5: "int (length (concat (chunks ?r))) \<noteq> 5" by simp
  from download_length_mismatch[OF 1 2 3 4 5, of "''/tmp/tmp0''" None]
  show ?thesis by simp
qed

subsection \<open>The retry executor\<close>

lemma sleeps_of_append [simp]: "sleeps_of (xs @ ys) = sleeps_of xs @ sleeps_of ys"
  by (induction xs rule: sleeps_of.induct) simp_all

lemma extends_with_refl [simp]: "extends_with P w w"
  by (simp add: extends_with_def)

lemma extends_with_trans:
  "extends_with P w w1 \<Longrightarrow> extends_with P w1 w2 \<Longrightarrow> extends_with P w w2"
  by (auto simp: extends_with_def)

lemma extends_with_emit [simp]: "extends_with P w (emit ev w) = P ev"
  by (simp add: extends_with_def)

lemma extends_with_mono:
  "extends_with P w w' \<Longrightarrow> (\<And>ev. P ev \<Longrightarrow> Q ev) \<Longrightarrow> extends_with Q w w'"
  by (auto simp: extends_with_def list_all_iff)

lemma retry_from_extends:
  assumes "\<And>w. extends_with P w (snd (operation w))"
      and "\<And>s. P (Sleep s)"
  shows "extends_with P w (snd (retry_from k pol operation w))"
  using assms
proof (induction k pol operation w rule: retry_from.induct)
  case (1 k pol operation w)
  obtain r w' where ow: "operation w = (r, w')" by (cases "operation w")
  have e1: "extends_with P w w'" using "1.prems"(1)[of w] ow by simp
  show ?case
  proof (cases r)
    case (Inr x)
    with ow e1 show ?thesis by (subst retry_from.simps) simp
  next
    case (Inl e)
    show ?thesis
    proof (cases "attempts pol \<le> k")
      case True
      with ow e1 Inl show ?thesis by (subst retry_from.simps) simp
    next
      case False
      let ?w2 = "sleep (min (sleeptime pol * 2 ^ (k - 1)) (max_sleeptime pol)) w'"
      have "extends_with P ?w2 (snd (retry_from (Suc k) pol operation ?w2))"
        using "1.IH"[OF ow[symmetric] Inl False] "1.prems" by blast
      moreover have "extends_with P w' ?w2" using "1.prems"(2) by (simp add: sleep_def)
      ultimately have "extends_with P w (snd (retry_from (Suc k) pol operation ?w2))"
        using e1 by (blast intro: extends_with_trans)
      with ow Inl False show ?thesis by (subst retry_from.simps) simp
    qed
  qed
qed

lemma retry_from_sleeps:
  assumes "\<And>w. \<exists>evs. trace (snd (operation w)) = trace w @ evs \<and> sleeps_of evs = []
                 \<and> length (filter R evs) \<le> 1"
      and "\<And>s. \<not> R (Sleep s)"
  shows "\<exists>evs n. trace (snd (retry_from k pol operation w)) = trace w @ evs
           \<and> sleeps_of evs = map (backoff pol) [k..<k + n]
           \<and> k + n \<le> max k (attempts pol)
           \<and> length (filter R evs) \<le> Suc n"
  using assms
proof (induction k pol operation w rule: retry_from.induct)
  case (1 k pol operation w)
  obtain r w' where ow: "operation w = (r, w')" by (cases "operation w")
  obtain evs0 where e0: "trace w' = trace w @ evs0" "sleeps_of evs0 = []" "length (filter R evs0) \<le> 1"
    using "1.prems"(1)[of w] ow by auto
  have base: "\<exists>evs n. trace w' = trace w @ evs \<and> sleeps_of evs = map (backoff pol) [k..<k + n]
           \<and> k + n \<le> max k (attempts pol) \<and> length (filter R evs) \<le> Suc n"
    using e0 by (intro exI[of _ evs0] exI[of _ 0]) simp
  show ?case
  proof (cases r)
    case (Inr x)
    with ow base show ?thesis by (subst retry_from.simps) simp
  next
    case (Inl e)
    show ?thesis
    proof (cases "attempts pol \<le> k")
      case True
      with ow base Inl show ?thesis by (subst retry_from.simps) simp
    next
      case False
      let ?w2 = "sleep (backoff pol k) w'"
      obtain evs n where r: "trace (snd (retry_from (Suc k) pol operation ?w2)) = trace ?w2 @ evs"
          "sleeps_of evs = map (backoff pol) [Suc k..<Suc k + n]"
          "Suc k + n \<le> max (Suc k) (attempts pol)" "length (filter R evs) \<le> Suc n"
        using "1.IH"[OF ow[symmetric] Inl False] "1.prems" unfolding backoff_def by blast
      have "trace (snd (retry_from (Suc k) pol operation ?w2)) = trace w @ (evs0 @ Sleep (backoff pol k) # evs)"
        using r(1) e0(1) by (simp add: sleep_def)
      moreover have "sleeps_of (evs0 @ Sleep (backoff pol k) # evs) = map (backoff pol) [k..<k + Suc n]"
      proof -
        have s1: "sleeps_of (evs0 @ Sleep (backoff pol k) # evs) = backoff pol k # sleeps_of evs"
          using e0(2) by simp
        have s2: "[k..<k + Suc n] = k # [Suc k..<Suc k + n]"
          by (simp add: upt_conv_Cons del: upt_Suc)
        show ?thesis unfolding s1 s2 r(2) by simp
      qed
      moreover have "k + Suc n \<le> max k (attempts pol)" using r(3) False by simp
      moreover have "length (filter R (evs0 @ Sleep (backoff pol k) # evs)) \<le> Suc (Suc n)"
        using r(4) e0(3) "1.prems"(2) by simp
      ultimately have "\<exists>evs n. trace (snd (retry_from (Suc k) pol operation ?w2)) = trace w @ evs
           \<and> sleeps_of evs = map (backoff pol) [k..<k + n]
           \<and> k + n \<le> max k (attempts pol) \<and> length (filter R evs) \<le> Suc n"
        by blast
      with ow Inl False show ?thesis by (subst retry_from.simps) (simp add: backoff_def)
    qed
  qed
qed

lemma retry_from_all_fail:
  assumes "\<And>w. \<exists>evs. trace (snd (operation w)) = trace w @ evs \<and> sleeps_of evs = []"
      and "\<And>w. isl (fst (operation w))"
  shows "\<exists>evs. trace (snd (retry_from k pol operation w)) = trace w @ evs
           \<and> sleeps_of evs = map (backoff pol) [k..<attempts pol]
           \<and> isl (fst (retry_from k pol operation w))"
  using assms
proof (induction k pol operation w rule: retry_from.induct)
  case (1 k pol operation w)
  obtain r w' where ow: "operation w = (r, w')" by (cases "operation w")
  obtain evs0 where e0: "trace w' = trace w @ evs0" "sleeps_of evs0 = []"
    using "1.prems"(1)[of w] ow by auto
  obtain e where Inl: "r = Inl e" using "1.prems"(2)[of w] ow by (cases r) auto
  show ?case
  proof (cases "attempts pol \<le> k")
    case True
    with ow e0 Inl show ?thesis by (subst (1 2) retry_from.simps) simp
  next
    case False
    let ?w2 = "sleep (backoff pol k) w'"
    obtain evs where r: "trace (snd (retry_from (Suc k) pol operation ?w2)) = trace ?w2 @ evs"
        "sleeps_of evs = map (backoff pol) [Suc k..<attempts pol]"
        "isl (fst (retry_from (Suc k) pol operation ?w2))"
      using "1.IH"[OF ow[symmetric] Inl False] "1.prems" unfolding backoff_def by blast
    have "trace (snd (retry_from (Suc k) pol operation ?w2)) = trace w @ (evs0 @ Sleep (backoff pol k) # evs)"
      using r(1) e0(1) by (simp add: sleep_def)
    moreover have "sleeps_of (evs0 @ Sleep (backoff pol k) # evs) = map (backoff pol) [k..<attempts pol]"
    proof -
      have s1: "sleeps_of (evs0 @ Sleep (backoff pol k) # evs) = backoff pol k # sleeps_of evs"
        using e0(2) by simp
      have s2: "[k..<attempts pol] = k # [Suc k..<attempts pol]"
        using False by (intro upt_conv_Cons) simp
      show ?thesis unfolding s1 s2 r(2) by simp
    qed
    ultimately have "\<exists>evs. trace (snd (retry_from (Suc k) pol operation ?w2)) = trace w @ evs
           \<and> sleeps_of evs = map (backoff pol) [k..<attempts pol]
           \<and> isl (fst (retry_from (Suc k) pol operation ?w2))"
      using r(3) by blast
    with ow Inl False show ?thesis by (subst (1 2) retry_from.simps) (simp add: backoff_def)
  qed
qed


lemma retry_from_inv:
  assumes "\<And>w. I w \<Longrightarrow> I (snd (operation w))"
      and "\<And>s w. I w \<Longrightarrow> I (sleep s w)"
      and "I w"
  shows "I (snd (retry_from k pol operation w))"
  using assms
proof (induction k pol operation w rule: retry_from.induct)
  case (1 k pol operation w)
  obtain r w' where ow: "operation w = (r, w')" by (cases "operation w")
  have i1: "I w'" using "1.prems"(1)[OF "1.prems"(3)] ow by simp
  show ?case
  proof (cases r)
    case (Inr x)
    with ow i1 show ?thesis by (subst retry_from.simps) simp
  next
    case (Inl e)
    show ?thesis
    proof (cases "attempts pol \<le> k")
      case True
      with ow i1 Inl show ?thesis by (subst retry_from.simps) simp
    next
      case False
      let ?w2 = "sleep (min (sleeptime pol * 2 ^ (k - 1)) (max_sleeptime pol)) w'"
      have "I ?w2" using i1 by (rule "1.prems"(2))
      then have "I (snd (retry_from (Suc k) pol operation ?w2))"
        using "1.IH"[OF ow[symmetric] Inl False] "1.prems"(1,2) by blast
      with ow Inl False show ?thesis by (subst retry_from.simps) simp
    qed
  qed
qed

subsection \<open>Submission\<close>


lemma run_submitter_trace:
  "trace (snd (run_submitter env st kw w)) =
     trace w @ [case st of ReleaseStyle \<Rightarrow> ReleaseRun kw | NightlyStyle \<Rightarrow> NightlyRun kw]"
  by (simp add: run_submitter_def Let_def split: option.splits)


lemma submit_call_trace:
  "trace (snd (wbind (wlift r) (run_submitter env st) w)) =
     trace w @ (case r of Inl err \<Rightarrow> []
                | Inr kw \<Rightarrow> [case st of ReleaseStyle \<Rightarrow> ReleaseRun kw | NightlyStyle \<Rightarrow> NightlyRun kw])"
  by (cases r) (simp_all add: run_submitter_trace)


lemma release_call_extends:
  "extends_with is_release_attempt w (snd (release_call env e pi ci w))"
  unfolding release_call_def extends_with_def submit_call_trace
  by (simp split: sum.splits)


lemma nightly_call_trace:
  "\<exists>evs. trace (snd (nightly_call env e pi ci w)) = trace w @ evs \<and> sleeps_of evs = []
       \<and> length (filter is_nightly_run evs) \<le> 1"
  unfolding nightly_call_def submit_call_trace
  by (simp split: sum.splits)

lemma submit_call_fails:
  "\<forall>i. submitter_run env i \<noteq> None \<Longrightarrow> isl (fst (wbind (wlift r) (run_submitter env st) w))"
  by (cases r) (auto simp: run_submitter_def Let_def split: option.splits)

lemma nightly_call_fails:
  "\<forall>i. submitter_run env i \<noteq> None \<Longrightarrow> isl (fst (nightly_call env e pi ci w))"
  unfolding nightly_call_def by (rule submit_call_fails)

lemma submit_entry_branches:
  assumes "getitem e ''to_hash'' = Inr to_hash" "getitem e ''to_size'' = Inr to_size"
      and "getitem e ''hash'' = Inr h" "getitem e ''size'' = Inr s"
  shows "submit_entry env args auth uploads_enabled parent_url signing_cert e w =
     (if contains e ''previousVersion'' \<and> contains e ''previousBuildNumber''
      then release_style env args auth e
             [(''hash'', h), (''size'', s)] [(''hash'', to_hash), (''size'', to_size)] w
      else if contains e ''from_buildid'' \<and> uploads_enabled
      then nightly_style env args auth parent_url signing_cert e
             [(''hash'', h), (''size'', s)] [(''hash'', to_hash), (''size'', to_size)] w
      else (Inl (RuntimeError [''Cannot determine Balrog submission style'']), w))"
  using assms by (simp add: submit_entry_def Let_def wlift_def)

lemma release_style_run:
  assumes "getitem e ''previousVersion'' = Inr pv" "getitem e ''previousBuildNumber'' = Inr pbn"
  shows "release_style env args auth e pi ci w =
     retry (default_policy env)
       (release_call env e (setitem (setitem pi ''previousVersion'' pv) ''previousBuildNumber'' pbn) ci)
       (log_info ''Release style balrog submission'' [] w)"
  using assms by (simp add: release_style_def wbind_def wlift_def)

lemma release_style_trace:
  assumes "contains e ''previousVersion''" "contains e ''previousBuildNumber''"
  shows "\<exists>evs. trace (snd (release_style env args auth e pi ci w)) =
            trace w @ Log ''INFO'' ''Release style balrog submission'' [] # evs
          \<and> list_all is_release_attempt evs"
proof -
  obtain pv pbn where g: "getitem e ''previousVersion'' = Inr pv"
      "getitem e ''previousBuildNumber'' = Inr pbn"
    using assms getitem_contains by blast
  let ?w1 = "log_info ''Release style balrog submission'' [] w"
  have "extends_with is_release_attempt ?w1 (snd (release_style env args auth e pi ci w))"
    unfolding release_style_run[OF g] retry_def
    by (rule retry_from_extends) (simp_all add: release_call_extends)
  then show ?thesis by (auto simp: extends_with_def log_info_def)
qed


subsection \<open>The publish loop\<close>

lemmas store_defs = get_key_def set_contents_from_filename_def concurrent_writer_def
  set_canned_acl_def get_contents_as_string_def

lemma loop_present_diff:
  assumes "bucket w name = Some k" "files w dest = Some local"
      and "get_hash env (contents k) ''md5'' \<noteq> get_hash env local ''md5''"
  shows "\<exists>w1. verify_copy_to_s3_loop env bn mar_dest dest (name # names) w =
               verify_copy_to_s3_loop env bn mar_dest dest names w1
            \<and> bucket w1 = bucket w \<and> racing w1 = racing w \<and> files w1 = files w
            \<and> next_version w1 = next_version w \<and> extends_with (\<lambda>ev. \<not> is_put ev) w w1"
  using assms
  apply (simp add: store_defs log_defs Let_def)
  apply (rule exI, rule conjI, rule refl)
  apply (simp add: extends_with_def)
  done

lemma loop_present_same:
  assumes "bucket w name = Some k" "files w dest = Some local"
      and "get_hash env (contents k) ''md5'' = get_hash env local ''md5''"
  shows "\<exists>w1. verify_copy_to_s3_loop env bn mar_dest dest (name # names) w =
               (Inr (generate_url env bn name (version_id k)), w1)
            \<and> bucket w1 = bucket w \<and> racing w1 = racing w \<and> files w1 = files w
            \<and> next_version w1 = next_version w \<and> extends_with (\<lambda>ev. \<not> is_put ev) w w1"
  using assms by (simp add: store_defs log_defs extends_with_def)

lemma loop_absent_race:
  assumes "bucket w name = None" "racing w name = Some c" "files w dest = Some local"
  shows "\<exists>w1. verify_copy_to_s3_loop env bn mar_dest dest (name # names) w =
               verify_copy_to_s3_loop env bn mar_dest dest names w1
            \<and> bucket w1 = (bucket w)(name \<mapsto>
                 \<lparr>contents = c, version_id = next_version w, acl = ''private''\<rparr>)
            \<and> racing w1 = (racing w)(name := None) \<and> files w1 = files w
            \<and> next_version w1 = Suc (next_version w)
            \<and> extends_with (\<lambda>ev. True) w w1"
  using assms
  apply (simp add: store_defs log_defs Let_def)
  apply (rule exI, rule conjI, rule refl)
  apply (simp add: extends_with_def)
  done

lemma loop_absent_free:
  assumes "bucket w name = None" "racing w name = None" "files w dest = Some local"
  shows "\<exists>w1. verify_copy_to_s3_loop env bn mar_dest dest (name # names) w =
               (Inr (generate_url env bn name (next_version w)), w1)
            \<and> bucket w1 = (bucket w)(name \<mapsto>
                 \<lparr>contents = local, version_id = next_version w, acl = ''public-read''\<rparr>)
            \<and> racing w1 = racing w \<and> files w1 = files w
            \<and> next_version w1 = Suc (next_version w)"
  using assms by (simp add: store_defs log_defs extends_with_def Let_def)

lemma loop_no_file:
  assumes "files w dest = None"
  shows "\<exists>w1. verify_copy_to_s3_loop env bn mar_dest dest (name # names) w = (Inl (IOError dest), w1)
            \<and> bucket w1 = bucket w \<and> files w1 = files w"
  using assms by (cases "bucket w name") (simp_all add: store_defs log_defs)

lemma loop_exhausted:
  assumes "files w dest = Some local"
      and "\<forall>n\<in>set names. \<exists>k. bucket w n = Some k
             \<and> get_hash env (contents k) ''md5'' \<noteq> get_hash env local ''md5''"
  shows "\<exists>w'. verify_copy_to_s3_loop env bn mar_dest dest names w =
               (Inl (RuntimeError [''Cannot generate a unique name for %s'', mar_dest]), w')
            \<and> bucket w' = bucket w \<and> racing w' = racing w \<and> files w' = files w
            \<and> next_version w' = next_version w \<and> extends_with (\<lambda>ev. \<not> is_put ev) w w'"
  using assms
proof (induction names arbitrary: w)
  case Nil
  then show ?case by simp
next
  case (Cons name names)
  from Cons.prems(2) obtain k where k: "bucket w name = Some k"
      "get_hash env (contents k) ''md5'' \<noteq> get_hash env local ''md5''" by auto
  from loop_present_diff[OF k(1) Cons.prems(1) k(2)]
  obtain w1 where w1: "verify_copy_to_s3_loop env bn mar_dest dest (name # names) w =
               verify_copy_to_s3_loop env bn mar_dest dest names w1"
      "bucket w1 = bucket w" "racing w1 = racing w" "files w1 = files w"
      "next_version w1 = next_version w" "extends_with (\<lambda>ev. \<not> is_put ev) w w1"
    by blast
  have "files w1 dest = Some local" using w1(4) Cons.prems(1) by simp
  moreover have "\<forall>n\<in>set names. \<exists>k. bucket w1 n = Some k
             \<and> get_hash env (contents k) ''md5'' \<noteq> get_hash env local ''md5''"
    using Cons.prems(2) w1(2) by simp
  ultimately obtain w' where w': "verify_copy_to_s3_loop env bn mar_dest dest names w1 =
               (Inl (RuntimeError [''Cannot generate a unique name for %s'', mar_dest]), w')"
      "bucket w' = bucket w1" "racing w' = racing w1" "files w' = files w1"
      "next_version w' = next_version w1" "extends_with (\<lambda>ev. \<not> is_put ev) w1 w'"
    using Cons.IH[of w1] by blast
  show ?case
    using w1 w' extends_with_trans[OF w1(6) w'(6)] by simp
qed

lemma loop_second:
  assumes "files v dest = Some local"
      and "\<forall>n\<in>set pre. \<exists>k. bucket v n = Some k
             \<and> get_hash env (contents k) ''md5'' \<noteq> get_hash env local ''md5''"
      and "bucket v name = Some k"
      and "get_hash env (contents k) ''md5'' = get_hash env local ''md5''"
  shows "\<exists>v'. verify_copy_to_s3_loop env bn mar_dest dest (pre @ name # post) v =
               (Inr (generate_url env bn name (version_id k)), v')
            \<and> bucket v' = bucket v \<and> racing v' = racing v \<and> files v' = files v
            \<and> next_version v' = next_version v \<and> extends_with (\<lambda>ev. \<not> is_put ev) v v'"
  using assms
proof (induction pre arbitrary: v)
  case Nil
  then show ?case using loop_present_same[of v name k dest local env bn mar_dest post] by simp
next
  case (Cons p pre)
  from Cons.prems(2) obtain kp where kp: "bucket v p = Some kp"
      "get_hash env (contents kp) ''md5'' \<noteq> get_hash env local ''md5''" by auto
  from loop_present_diff[OF kp(1) Cons.prems(1) kp(2)]
  obtain v1 where v1: "verify_copy_to_s3_loop env bn mar_dest dest (p # pre @ name # post) v =
               verify_copy_to_s3_loop env bn mar_dest dest (pre @ name # post) v1"
      "bucket v1 = bucket v" "racing v1 = racing v" "files v1 = files v"
      "next_version v1 = next_version v" "extends_with (\<lambda>ev. \<not> is_put ev) v v1"
    by blast
  have "\<exists>v'. verify_copy_to_s3_loop env bn mar_dest dest (pre @ name # post) v1 =
               (Inr (generate_url env bn name (version_id k)), v')
            \<and> bucket v' = bucket v1 \<and> racing v' = racing v1 \<and> files v' = files v1
            \<and> next_version v' = next_version v1 \<and> extends_with (\<lambda>ev. \<not> is_put ev) v1 v'"
    using Cons.prems v1 by (intro Cons.IH) simp_all
  then obtain v' where v': "verify_copy_to_s3_loop env bn mar_dest dest (pre @ name # post) v1 =
               (Inr (generate_url env bn name (version_id k)), v')"
      "bucket v' = bucket v1" "racing v' = racing v1" "files v' = files v1"
      "next_version v' = next_version v1" "extends_with (\<lambda>ev. \<not> is_put ev) v1 v'"
    by blast
  show ?case
    using v1 v' extends_with_trans[OF v1(6) v'(6)] by simp
qed

lemma loop_keeps:
  assumes "bucket w n = Some k"
  shows "\<exists>k'. bucket (snd (verify_copy_to_s3_loop env bn mar_dest dest names w)) n = Some k'
            \<and> contents k' = contents k \<and> version_id k' = version_id k"
  using assms
proof (induction names arbitrary: w k)
  case Nil
  then show ?case by simp
next
  case (Cons name names)
  show ?case
  proof (cases "files w dest")
    case None
    from loop_no_file[OF None, of env bn mar_dest name names] Cons.prems show ?thesis by auto
  next
    case (Some local)
    note fl = Some
    show ?thesis
    proof (cases "bucket w name")
      case (Some kn)
      show ?thesis
      proof (cases "get_hash env (contents kn) ''md5'' = get_hash env local ''md5''")
        case True
        from loop_present_same[OF Some fl True, of bn mar_dest names]
        show ?thesis using Cons.prems by auto
      next
        case False
        from loop_present_diff[OF Some fl False, of bn mar_dest names]
        obtain w1 where w1: "verify_copy_to_s3_loop env bn mar_dest dest (name # names) w =
               verify_copy_to_s3_loop env bn mar_dest dest names w1" "bucket w1 = bucket w"
          by blast
        show ?thesis unfolding w1(1) using Cons.IH[of w1 k] Cons.prems w1(2) by simp
      qed
    next
      case None
      then have ne: "n \<noteq> name" using Cons.prems by auto
      show ?thesis
      proof (cases "racing w name")
        case (Some c)
        from loop_absent_race[OF None Some fl, of env bn mar_dest names]
        obtain w1 where w1: "verify_copy_to_s3_loop env bn mar_dest dest (name # names) w =
               verify_copy_to_s3_loop env bn mar_dest dest names w1"
            "bucket w1 = (bucket w)(name \<mapsto>
                 \<lparr>contents = c, version_id = next_version w, acl = ''private''\<rparr>)"
          by blast
        have "bucket w1 n = Some k" using w1(2) ne Cons.prems by simp
        then show ?thesis unfolding w1(1) by (rule Cons.IH)
      next
        case rn: None
        from loop_absent_free[OF None rn fl, of env bn mar_dest names]
        show ?thesis using Cons.prems ne by auto
      qed
    qed
  qed
qed

lemma loop_first:
  assumes "files w dest = Some local"
      and "\<forall>n c. racing w n = Some c \<longrightarrow> get_hash env c ''md5'' \<noteq> get_hash env local ''md5''"
      and "verify_copy_to_s3_loop env bn mar_dest dest names w = (Inr u, w')"
  shows "\<exists>pre name post k. names = pre @ name # post \<and> bucket w' name = Some k
          \<and> get_hash env (contents k) ''md5'' = get_hash env local ''md5''
          \<and> u = generate_url env bn name (version_id k)
          \<and> (\<forall>n\<in>set pre. \<exists>k'. bucket w' n = Some k'
                \<and> get_hash env (contents k') ''md5'' \<noteq> get_hash env local ''md5'')"
  using assms
proof (induction names arbitrary: w)
  case Nil
  then show ?case by simp
next
  case (Cons name names)
  note fl = Cons.prems(1)
  show ?case
  proof (cases "bucket w name")
    case (Some kn)
    show ?thesis
    proof (cases "get_hash env (contents kn) ''md5'' = get_hash env local ''md5''")
      case True
      from loop_present_same[OF Some fl True, of bn mar_dest names] Cons.prems(3)
      have "u = generate_url env bn name (version_id kn)" "bucket w' = bucket w" by auto
      then show ?thesis using Some True
        by (intro exI[of _ "[]"] exI[of _ name] exI[of _ names] exI[of _ kn]) simp
    next
      case False
      from loop_present_diff[OF Some fl False, of bn mar_dest names]
      obtain w1 where w1: "verify_copy_to_s3_loop env bn mar_dest dest (name # names) w =
               verify_copy_to_s3_loop env bn mar_dest dest names w1"
            "bucket w1 = bucket w" "racing w1 = racing w" "files w1 = files w"
        by blast
      have r: "verify_copy_to_s3_loop env bn mar_dest dest names w1 = (Inr u, w')"
        using Cons.prems(3) w1(1) by simp
      obtain pre nm post k where ih: "names = pre @ nm # post" "bucket w' nm = Some k"
          "get_hash env (contents k) ''md5'' = get_hash env local ''md5''"
          "u = generate_url env bn nm (version_id k)"
          "\<forall>n\<in>set pre. \<exists>k'. bucket w' n = Some k'
                \<and> get_hash env (contents k') ''md5'' \<noteq> get_hash env local ''md5''"
        using Cons.IH[of w1] fl Cons.prems(2) r w1 by auto
      have "bucket w1 name = Some kn" using Some w1(2) by simp
      from loop_keeps[OF this, of env bn mar_dest dest names] r
      obtain k' where "bucket w' name = Some k'" "contents k' = contents kn" by auto
      with False have "\<exists>k'. bucket w' name = Some k'
                \<and> get_hash env (contents k') ''md5'' \<noteq> get_hash env local ''md5''" by simp
      with ih show ?thesis
        by (intro exI[of _ "name # pre"] exI[of _ nm] exI[of _ post] exI[of _ k]) simp
    qed
  next
    case None
    show ?thesis
    proof (cases "racing w name")
      case (Some c)
      from loop_absent_race[OF None Some fl, of env bn mar_dest names]
      obtain w1 where w1: "verify_copy_to_s3_loop env bn mar_dest dest (name # names) w =
               verify_copy_to_s3_loop env bn mar_dest dest names w1"
            "bucket w1 = (bucket w)(name \<mapsto>
                 \<lparr>contents = c, version_id = next_version w, acl = ''private''\<rparr>)"
            "racing w1 = (racing w)(name := None)" "files w1 = files w"
        by blast
      have r: "verify_copy_to_s3_loop env bn mar_dest dest names w1 = (Inr u, w')"
        using Cons.prems(3) w1(1) by simp
      have pr: "\<forall>n c. racing w1 n = Some c \<longrightarrow> get_hash env c ''md5'' \<noteq> get_hash env local ''md5''"
        using Cons.prems(2) w1(3) by (auto split: if_splits)
      obtain pre nm post k where ih: "names = pre @ nm # post" "bucket w' nm = Some k"
          "get_hash env (contents k) ''md5'' = get_hash env local ''md5''"
          "u = generate_url env bn nm (version_id k)"
          "\<forall>n\<in>set pre. \<exists>k'. bucket w' n = Some k'
                \<and> get_hash env (contents k') ''md5'' \<noteq> get_hash env local ''md5''"
        using Cons.IH[of w1] fl pr r w1(4) by auto
      have "bucket w1 name = Some \<lparr>contents = c, version_id = next_version w, acl = ''private''\<rparr>"
        using w1(2) by simp
      from loop_keeps[OF this, of env bn mar_dest dest names] r
      obtain k' where "bucket w' name = Some k'" "contents k' = c" by auto
      with Cons.prems(2) Some have "\<exists>k'. bucket w' name = Some k'
                \<and> get_hash env (contents k') ''md5'' \<noteq> get_hash env local ''md5''" by simp
      with ih show ?thesis
        by (intro exI[of _ "name # pre"] exI[of _ nm] exI[of _ post] exI[of _ k]) simp
    next
      case rn: None
      from loop_absent_free[OF None rn fl, of env bn mar_dest names] Cons.prems(3)
      have "u = generate_url env bn name (next_version w)"
           "bucket w' = (bucket w)(name \<mapsto>
                 \<lparr>contents = local, version_id = next_version w, acl = ''public-read''\<rparr>)"
        by auto
      then show ?thesis
        by (intro exI[of _ "[]"] exI[of _ name] exI[of _ names]
              exI[of _ "\<lparr>contents = local, version_id = next_version w, acl = ''public-read''\<rparr>"]) simp
    qed
  qed
qed

lemma loop_idempotent:
  assumes "files w dest = Some local"
      and "\<forall>n c. racing w n = Some c \<longrightarrow> get_hash env c ''md5'' \<noteq> get_hash env local ''md5''"
      and "verify_copy_to_s3_loop env bn mar_dest dest names w = (Inr u, w')"
      and "files v dest2 = Some local" and "bucket v = bucket w'"
  shows "\<exists>v'. verify_copy_to_s3_loop env bn mar_dest dest2 names v = (Inr u, v')
            \<and> bucket v' = bucket v \<and> extends_with (\<lambda>ev. \<not> is_put ev) v v'"
proof -
  from loop_first[OF assms(1,2,3)]
  obtain pre name post k where f: "names = pre @ name # post" "bucket w' name = Some k"
      "get_hash env (contents k) ''md5'' = get_hash env local ''md5''"
      "u = generate_url env bn name (version_id k)"
      "\<forall>n\<in>set pre. \<exists>k'. bucket w' n = Some k'
                \<and> get_hash env (contents k') ''md5'' \<noteq> get_hash env local ''md5''"
    by blast
  from loop_second[of v dest2 local pre env name k bn mar_dest post] assms(4,5) f
  show ?thesis by auto
qed

lemma loop_second_present:
  assumes "files v dest = Some local"
      and "\<forall>n\<in>set pre. bucket v n \<noteq> None"
      and "bucket v name = Some k"
      and "get_hash env (contents k) ''md5'' = get_hash env local ''md5''"
  shows "\<exists>u v'. verify_copy_to_s3_loop env bn mar_dest dest (pre @ name # post) v = (Inr u, v')
            \<and> bucket v' = bucket v \<and> extends_with (\<lambda>ev. \<not> is_put ev) v v'"
  using assms
proof (induction pre arbitrary: v)
  case Nil
  then show ?case using loop_present_same[of v name k dest local env bn mar_dest post] by auto
next
  case (Cons p pre)
  from Cons.prems(2) obtain kp where kp: "bucket v p = Some kp" by auto
  show ?case
  proof (cases "get_hash env (contents kp) ''md5'' = get_hash env local ''md5''")
    case True
    from loop_present_same[OF kp Cons.prems(1) True, of bn mar_dest "pre @ name # post"]
    show ?thesis by auto
  next
    case False
    from loop_present_diff[OF kp Cons.prems(1) False]
    obtain v1 where v1: "verify_copy_to_s3_loop env bn mar_dest dest (p # pre @ name # post) v =
                 verify_copy_to_s3_loop env bn mar_dest dest (pre @ name # post) v1"
        "bucket v1 = bucket v" "files v1 = files v" "extends_with (\<lambda>ev. \<not> is_put ev) v v1"
      by blast
    have "\<exists>u v'. verify_copy_to_s3_loop env bn mar_dest dest (pre @ name # post) v1 = (Inr u, v')
            \<and> bucket v' = bucket v1 \<and> extends_with (\<lambda>ev. \<not> is_put ev) v1 v'"
      using Cons.prems v1 by (intro Cons.IH) simp_all
    then obtain u v' where v': "verify_copy_to_s3_loop env bn mar_dest dest (pre @ name # post) v1 = (Inr u, v')"
        "bucket v' = bucket v1" "extends_with (\<lambda>ev. \<not> is_put ev) v1 v'"
      by blast
    show ?thesis
      using v1 v' extends_with_trans[OF v1(4) v'(3)] by simp
  qed
qed

lemma loop_first_present:
  assumes "files w dest = Some local"
      and "verify_copy_to_s3_loop env bn mar_dest dest names w = (Inr u, w')"
  shows "\<exists>pre name post k. names = pre @ name # post \<and> bucket w' name = Some k
          \<and> get_hash env (contents k) ''md5'' = get_hash env local ''md5''
          \<and> (\<forall>n\<in>set pre. bucket w' n \<noteq> None)"
  using assms
proof (induction names arbitrary: w)
  case Nil
  then show ?case by simp
next
  case (Cons name names)
  note fl = Cons.prems(1)
  have step: ?case
    if w1: "verify_copy_to_s3_loop env bn mar_dest dest (name # names) w =
              verify_copy_to_s3_loop env bn mar_dest dest names w1"
       "files w1 = files w" "bucket w1 name \<noteq> None" for w1
  proof -
    have r: "verify_copy_to_s3_loop env bn mar_dest dest names w1 = (Inr u, w')"
      using Cons.prems(2) w1(1) by simp
    obtain pre nm post k where ih: "names = pre @ nm # post" "bucket w' nm = Some k"
        "get_hash env (contents k) ''md5'' = get_hash env local ''md5''"
        "\<forall>n\<in>set pre. bucket w' n \<noteq> None"
      using Cons.IH[of w1] fl r w1(2) by auto
    from w1(3) obtain kn where "bucket w1 name = Some kn" by auto
    from loop_keeps[OF this, of env bn mar_dest dest names] r
    have "bucket w' name \<noteq> None" by auto
    with ih show ?thesis
      by (intro exI[of _ "name # pre"] exI[of _ nm] exI[of _ post] exI[of _ k]) simp
  qed
  show ?case
  proof (cases "bucket w name")
    case (Some kn)
    show ?thesis
    proof (cases "get_hash env (contents kn) ''md5'' = get_hash env local ''md5''")
      case True
      from loop_present_same[OF Some fl True, of bn mar_dest names] Cons.prems(2)
      have "bucket w' = bucket w" by auto
      then show ?thesis using Some True
        by (intro exI[of _ "[]"] exI[of _ name] exI[of _ names] exI[of _ kn]) simp
    next
      case False
      from loop_present_diff[OF Some fl False, of bn mar_dest names]
      obtain w1 where "verify_copy_to_s3_loop env bn mar_dest dest (name # names) w =
               verify_copy_to_s3_loop env bn mar_dest dest names w1"
            "bucket w1 = bucket w" "files w1 = files w"
        by blast
      with Some show ?thesis by (intro step[of w1]) simp_all
    qed
  next
    case None
    show ?thesis
    proof (cases "racing w name")
      case (Some c)
      from loop_absent_race[OF None Some fl, of env bn mar_dest names]
      obtain w1 where "verify_copy_to_s3_loop env bn mar_dest dest (name # names) w =
               verify_copy_to_s3_loop env bn mar_dest dest names w1"
            "bucket w1 = (bucket w)(name \<mapsto>
                 \<lparr>contents = c, version_id = next_version w, acl = ''private''\<rparr>)"
            "files w1 = files w"
        by blast
      then show ?thesis by (intro step[of w1]) simp_all
    next
      case rn: None
      from loop_absent_free[OF None rn fl, of env bn mar_dest names] Cons.prems(2)
      have "bucket w' = (bucket w)(name \<mapsto>
                 \<lparr>contents = local, version_id = next_version w, acl = ''public-read''\<rparr>)"
        by auto
      then show ?thesis
        by (intro exI[of _ "[]"] exI[of _ name] exI[of _ names]
              exI[of _ "\<lparr>contents = local, version_id = next_version w, acl = ''public-read''\<rparr>"]) simp
    qed
  qed
qed

lemma loop_rerun:
  assumes "files w dest = Some local"
      and "verify_copy_to_s3_loop env bn mar_dest dest names w = (Inr u, w')"
      and "files v dest2 = Some local" and "bucket v = bucket w'"
  shows "\<exists>u2 v'. verify_copy_to_s3_loop env bn mar_dest dest2 names v = (Inr u2, v')
            \<and> bucket v' = bucket v \<and> extends_with (\<lambda>ev. \<not> is_put ev) v v'"
proof -
  from loop_first_present[OF assms(1,2)]
  obtain pre name post k where f: "names = pre @ name # post" "bucket w' name = Some k"
      "get_hash env (contents k) ''md5'' = get_hash env local ''md5''"
      "\<forall>n\<in>set pre. bucket w' n \<noteq> None"
    by blast
  from loop_second_present[of v dest2 local pre name k env bn mar_dest post] assms(3,4) f
  show ?thesis by auto
qed

lemmas download_defs = download_once_def requests_get_def download_check_def log_defs Let_def

lemma download_once_store:
  "bucket (snd (download_once env url dest mode w)) = bucket w
   \<and> racing (snd (download_once env url dest mode w)) = racing w
   \<and> next_version (snd (download_once env url dest mode w)) = next_version w"
  by (auto simp: download_defs split: sum.splits option.splits)

lemma download_once_file:
  "files w d \<noteq> None \<Longrightarrow> files (snd (download_once env url dest mode w)) d \<noteq> None"
  by (auto simp: download_defs split: sum.splits option.splits)

lemma download_once_extends:
  "extends_with (\<lambda>ev. \<not> is_put ev) w (snd (download_once env url dest mode w))"
  by (auto simp: download_defs extends_with_def split: sum.splits option.splits)

lemma download_store:
  "bucket (snd (download env url dest mode w)) = bucket w
   \<and> racing (snd (download env url dest mode w)) = racing w
   \<and> next_version (snd (download env url dest mode w)) = next_version w"
  unfolding download_def retry_def
  by (rule retry_from_inv[where I = "\<lambda>v. bucket v = bucket w \<and> racing v = racing w
        \<and> next_version v = next_version w"])
     (simp_all add: download_once_store sleep_def)

lemma download_file:
  "files w d \<noteq> None \<Longrightarrow> files (snd (download env url dest mode w)) d \<noteq> None"
  unfolding download_def retry_def
  by (rule retry_from_inv[where I = "\<lambda>v. files v d \<noteq> None"])
     (simp_all add: download_once_file sleep_def)

lemma download_extends:
  "extends_with (\<lambda>ev. \<not> is_put ev) w (snd (download env url dest mode w))"
  unfolding download_def retry_def
  by (rule retry_from_extends) (simp_all add: download_once_extends)

lemma stage_facts:
  "bucket (snd (stage env mar_url signing_cert w)) = bucket w
   \<and> racing (snd (stage env mar_url signing_cert w)) = racing w
   \<and> next_version (snd (stage env mar_url signing_cert w)) = next_version w
   \<and> files (snd (stage env mar_url signing_cert w)) (''/tmp/tmp'' @ str_nat (tmp_count w)) \<noteq> None
   \<and> extends_with (\<lambda>ev. \<not> is_put ev) w (snd (stage env mar_url signing_cert w))
   \<and> (\<forall>dest. fst (stage env mar_url signing_cert w) = Inr dest
         \<longrightarrow> dest = ''/tmp/tmp'' @ str_nat (tmp_count w))"
proof -
  let ?dest = "''/tmp/tmp'' @ str_nat (tmp_count w)"
  let ?w1 = "log_info ''Downloading %s to %s...'' [JStr mar_url, JStr ?dest]
               (w\<lparr>files := (files w)(?dest \<mapsto> []), tmp_count := Suc (tmp_count w)\<rparr>)"
  obtain r w2 where d: "download env mar_url ?dest None ?w1 = (r, w2)"
    by (cases "download env mar_url ?dest None ?w1")
  have s: "bucket w2 = bucket w" "racing w2 = racing w" "next_version w2 = next_version w"
    using download_store[of env mar_url ?dest None ?w1] d by (simp_all add: log_defs)
  have f: "files w2 ?dest \<noteq> None"
    using download_file[of ?w1 ?dest env mar_url ?dest None] d by (simp add: log_defs)
  have "extends_with (\<lambda>ev. \<not> is_put ev) ?w1 w2"
    using download_extends[of ?w1 env mar_url ?dest None] d by simp
  moreover have "extends_with (\<lambda>ev. \<not> is_put ev) w ?w1"
    by (simp add: extends_with_def log_defs)
  ultimately have e: "extends_with (\<lambda>ev. \<not> is_put ev) w w2" by (blast intro: extends_with_trans)
  then have e': "extends_with (\<lambda>ev. \<not> is_put ev) w (log_info ''Verifying the signature...'' [] w2)"
    by (auto simp: extends_with_def log_defs)
  have e'': "extends_with (\<lambda>ev. \<not> is_put ev) w
      (log_info ''Checking %s signature'' [JStr ?dest] (log_info ''Verifying the signature...'' [] w2))"
    using e by (auto simp: extends_with_def log_defs)
  show ?thesis
    using d s f e e' e''
    by (auto simp: stage_def mkstemp_def Let_def verify_signature_def log_defs
          split: sum.splits option.splits)
qed

lemma loop_files:
  "files (snd (verify_copy_to_s3_loop env bn mar_dest dest names w)) = files w"
proof (induction names arbitrary: w)
  case Nil
  then show ?case by simp
next
  case (Cons name names)
  show ?case
  proof (cases "files w dest")
    case None
    from loop_no_file[OF None, of env bn mar_dest name names] show ?thesis by auto
  next
    case (Some local)
    note fl = Some
    show ?thesis
    proof (cases "bucket w name")
      case (Some kn)
      show ?thesis
      proof (cases "get_hash env (contents kn) ''md5'' = get_hash env local ''md5''")
        case True
        from loop_present_same[OF Some fl True, of bn mar_dest names] show ?thesis by auto
      next
        case False
        from loop_present_diff[OF Some fl False, of bn mar_dest names] Cons.IH
        show ?thesis by auto
      qed
    next
      case None
      show ?thesis
      proof (cases "racing w name")
        case (Some c)
        from loop_absent_race[OF None Some fl, of env bn mar_dest names] Cons.IH
        show ?thesis by auto
      next
        case rn: None
        from loop_absent_free[OF None rn fl, of env bn mar_dest names] show ?thesis by auto
      qed
    qed
  qed
qed

lemma stage_split:
  assumes "stage env mar_url signing_cert w = (Inr dest, ws)"
  shows "verify_copy_to_s3 env bn kid ksec mar_url mar_dest signing_cert w =
           verify_copy_to_s3_loop env bn mar_dest dest (possible_names mar_dest 10) ws"
  using assms by (simp add: verify_copy_to_s3_def)

lemma loop_absent_free_trace:
  assumes "bucket w name = None" "racing w name = None" "files w dest = Some local"
  shows "extends_with (\<lambda>ev. True) w
           (snd (verify_copy_to_s3_loop env bn mar_dest dest (name # names) w))"
  using assms by (simp add: store_defs log_defs extends_with_def Let_def)

lemma loop_extends:
  "extends_with (\<lambda>ev. True) w (snd (verify_copy_to_s3_loop env bn mar_dest dest names w))"
proof (induction names arbitrary: w)
  case Nil
  then show ?case by simp
next
  case (Cons name names)
  show ?case
  proof (cases "files w dest")
    case None
    then show ?thesis
      by (cases "bucket w name") (simp_all add: store_defs log_defs extends_with_def)
  next
    case (Some local)
    note fl = Some
    show ?thesis
    proof (cases "bucket w name")
      case (Some kn)
      show ?thesis
      proof (cases "get_hash env (contents kn) ''md5'' = get_hash env local ''md5''")
        case True
        from loop_present_same[OF Some fl True, of bn mar_dest names]
        show ?thesis by (auto intro: extends_with_mono)
      next
        case False
        from loop_present_diff[OF Some fl False, of bn mar_dest names]
        obtain w1 where w1: "verify_copy_to_s3_loop env bn mar_dest dest (name # names) w =
               verify_copy_to_s3_loop env bn mar_dest dest names w1"
            "extends_with (\<lambda>ev. \<not> is_put ev) w w1"
          by blast
        have "extends_with (\<lambda>ev. True) w w1" using w1(2) by (rule extends_with_mono) simp
        then show ?thesis unfolding w1(1) using Cons.IH[of w1] by (rule extends_with_trans)
      qed
    next
      case None
      show ?thesis
      proof (cases "racing w name")
        case (Some c)
        from loop_absent_race[OF None Some fl, of env bn mar_dest names]
        obtain w1 where w1: "verify_copy_to_s3_loop env bn mar_dest dest (name # names) w =
               verify_copy_to_s3_loop env bn mar_dest dest names w1"
            "extends_with (\<lambda>ev. True) w w1"
          by blast
        show ?thesis unfolding w1(1) using w1(2) Cons.IH[of w1] by (rule extends_with_trans)
      next
        case rn: None
        from loop_absent_free_trace[OF None rn fl] show ?thesis .
      qed
    qed
  qed
qed

lemma verify_copy_to_s3_extends:
  "extends_with (\<lambda>ev. True) w
     (snd (verify_copy_to_s3 env bn kid ksec mar_url mar_dest signing_cert w))"
proof -
  obtain r ws where s: "stage env mar_url signing_cert w = (r, ws)"
    by (cases "stage env mar_url signing_cert w")
  have "extends_with (\<lambda>ev. \<not> is_put ev) w ws"
    using stage_facts[of env mar_url signing_cert w] s by simp
  then have e: "extends_with (\<lambda>ev. True) w ws" by (rule extends_with_mono) simp
  show ?thesis
  proof (cases r)
    case (Inl err)
    with s e show ?thesis by (simp add: verify_copy_to_s3_def)
  next
    case (Inr dest)
    with s show ?thesis
      using extends_with_trans[OF e loop_extends[of ws env bn mar_dest dest "possible_names mar_dest 10"]]
      by (simp add: verify_copy_to_s3_def)
  qed
qed

lemma wbind_extends:
  assumes "\<And>v. extends_with P v (snd (m v))"
      and "\<And>x v. extends_with P v (snd (f x v))"
  shows "extends_with P w (snd (wbind m f w))"
proof (cases "m w")
  case (Pair r w1)
  have e: "extends_with P w w1" using assms(1)[of w] Pair by simp
  show ?thesis
  proof (cases r)
    case (Inl err)
    with Pair e show ?thesis by (simp add: wbind_def)
  next
    case (Inr x)
    with Pair show ?thesis
      using extends_with_trans[OF e assms(2)[of w1 x]] by (simp add: wbind_def)
  qed
qed

lemma wlift_extends [simp]: "extends_with P w (snd (wlift r w))"
  by (simp add: wlift_def)

lemma nightly_call_extends:
  "extends_with (\<lambda>ev. True) w (snd (nightly_call env e pi ci w))"
  using nightly_call_trace[of env e pi ci w] by (auto simp: extends_with_def list_all_iff)

lemma nightly_submit_extends:
  "extends_with (\<lambda>ev. True) w (snd (nightly_submit env e pi ci w))"
  unfolding nightly_submit_def retry_def
  by (rule retry_from_extends) (simp_all add: nightly_call_extends)

lemma nightly_style_trace:
  "\<exists>evs. trace (snd (nightly_style env args auth parent_url signing_cert e pi ci w)) =
            trace w @ Log ''INFO'' ''Nightly style balrog submission'' [] # evs"
proof -
  let ?w1 = "log_info ''Nightly style balrog submission'' [] w"
  have "extends_with (\<lambda>ev. True) ?w1
          (snd (nightly_style env args auth parent_url signing_cert e pi ci w))"
    unfolding nightly_style_def
    apply (subst wbind_def)
    apply (simp add: Let_def)
    apply (intro wbind_extends wlift_extends verify_copy_to_s3_extends nightly_submit_extends)
    done
  then show ?thesis by (auto simp: extends_with_def log_info_def)
qed

text \<open>
  C9 (as amended). \<open>verify_copy_to_s3\<close> never deletes the temporary file that \<open>mkstemp\<close>
  made for it: on every exit path (a URL returned, the names exhausted, the download
  failed, the signature refused) the file is still there when the function is left.
\<close>

theorem temporary_file_kept:
  "files (snd (verify_copy_to_s3 env bn kid ksec mar_url mar_dest signing_cert w))
     (''/tmp/tmp'' @ str_nat (tmp_count w)) \<noteq> None
   \<and> fst (mkstemp w) = ''/tmp/tmp'' @ str_nat (tmp_count w)"
proof -
  obtain r ws where s: "stage env mar_url signing_cert w = (r, ws)"
    by (cases "stage env mar_url signing_cert w")
  have f: "files ws (''/tmp/tmp'' @ str_nat (tmp_count w)) \<noteq> None"
    using stage_facts[of env mar_url signing_cert w] s by simp
  show ?thesis
  proof (cases r)
    case (Inl e)
    with s f show ?thesis by (simp add: verify_copy_to_s3_def mkstemp_def Let_def)
  next
    case (Inr dest)
    with s f show ?thesis
      by (simp add: verify_copy_to_s3_def mkstemp_def Let_def loop_files)
  qed
qed

theorem temporary_file_kept_witness:
  "files (snd (verify_copy_to_s3 env0 ''bkt'' ''id'' ''secret'' ''https://x/p.mar'' ''b/p.mar''
                 ''cert'' world0)) ''/tmp/tmp0'' \<noteq> None"
proof -
  have "''/tmp/tmp'' @ str_nat (tmp_count world0) = ''/tmp/tmp0''" by code_simp
  with temporary_file_kept[of env0 "''bkt''" "''id''" "''secret''" "''https://x/p.mar''"
         "''b/p.mar''" "''cert''" world0]
  show ?thesis by simp
qed

text \<open>
  The claim as stated fails: with a signature that does not verify, the function raises
  and the downloaded bytes are still in the temporary file.
\<close>

theorem temporary_file_left_counterexample:
  "fst (verify_copy_to_s3 (env0\<lparr>signature_ok := (\<lambda>data key. False)\<rparr>)
          ''bkt'' ''id'' ''secret'' ''https://x/p.mar'' ''b/p.mar'' ''cert'' world0) =
     Inl VerificationError
   \<and> files (snd (verify_copy_to_s3 (env0\<lparr>signature_ok := (\<lambda>data key. False)\<rparr>)
          ''bkt'' ''id'' ''secret'' ''https://x/p.mar'' ''b/p.mar'' ''cert'' world0)) ''/tmp/tmp0'' =
     Some ''DATA''"
  by code_simp

text \<open>
  C2. When the download and the signature check have passed and every one of the eleven
  candidate names holds an object whose MD5 differs from the local content's, the function
  raises the \<open>RuntimeError\<close> that carries the desired name, leaves the bucket as it was
  and makes no create-if-absent write.
\<close>

theorem all_candidates_taken:
  assumes "stage env mar_url signing_cert w = (Inr dest, ws)"
      and "files ws dest = Some local"
      and "\<forall>name\<in>set (possible_names mar_dest 10). \<exists>k. bucket w name = Some k
             \<and> get_hash env (contents k) ''md5'' \<noteq> get_hash env local ''md5''"
  shows "\<exists>w'. verify_copy_to_s3 env bn kid ksec mar_url mar_dest signing_cert w =
               (Inl (RuntimeError [''Cannot generate a unique name for %s'', mar_dest]), w')
            \<and> bucket w' = bucket w
            \<and> extends_with (\<lambda>ev. \<not> is_put ev) w w'
            \<and> length (possible_names mar_dest 10) = 11"
proof -
  have sf: "bucket ws = bucket w" "extends_with (\<lambda>ev. \<not> is_put ev) w ws"
    using stage_facts[of env mar_url signing_cert w] assms(1) by simp_all
  from loop_exhausted[of ws dest local "possible_names mar_dest 10" env bn mar_dest]
  obtain w' where "verify_copy_to_s3_loop env bn mar_dest dest (possible_names mar_dest 10) ws =
               (Inl (RuntimeError [''Cannot generate a unique name for %s'', mar_dest]), w')"
      "bucket w' = bucket ws" "extends_with (\<lambda>ev. \<not> is_put ev) ws w'"
    using assms(2,3) sf(1) by auto
  then show ?thesis
    unfolding stage_split[OF assms(1)] using sf possible_names_length[of 10 mar_dest]
    by (auto intro: extends_with_trans)
qed

theorem all_candidates_taken_witness:
  "fst (verify_copy_to_s3 env0 ''bkt'' ''id'' ''secret'' ''https://x/p.mar'' ''b/p.mar'' ''cert''
          (world0\<lparr>bucket := (\<lambda>name. Some \<lparr>contents = ''OLD'', version_id = 0,
                                             acl = ''public-read''\<rparr>)\<rparr>)) =
     Inl (RuntimeError [''Cannot generate a unique name for %s'', ''b/p.mar''])"
proof -
  let ?w = "world0\<lparr>bucket := (\<lambda>name. Some \<lparr>contents = ''OLD'', version_id = 0,
                                             acl = ''public-read''\<rparr>)\<rparr>"
  let ?st = "stage env0 ''https://x/p.mar'' ''cert''"
  have 1: "?st ?w = (Inr ''/tmp/tmp0'', snd (?st ?w))"
    by (rule pair_of_fst) code_simp
  have 2: "files (snd (?st ?w)) ''/tmp/tmp0'' = Some ''DATA''" by code_simp
  have 3: "\<forall>name\<in>set (possible_names ''b/p.mar'' 10). \<exists>k. bucket ?w name = Some k
             \<and> get_hash env0 (contents k) ''md5'' \<noteq> get_hash env0 ''DATA'' ''md5''"
    by (simp add: get_hash_def env0_def)
  from all_candidates_taken[OF 1 2 3, of "''bkt''" "''id''" "''secret''"] show ?thesis by auto
qed

text \<open>
  C1 (as amended). After a first call that returned a URL, a second call that stages
  the same content returns a URL, leaves the bucket as it was and makes no
  create-if-absent write; the URL is the one of the first call provided that no
  concurrent publisher was creating, under a name the first call found absent, an object
  with the MD5 of the local content.
\<close>

theorem publish_twice_same_url:
  assumes "stage env mar_url signing_cert w0 = (Inr dest1, ws1)"
      and "files ws1 dest1 = Some local"
      and "verify_copy_to_s3 env bn kid ksec mar_url mar_dest signing_cert w0 = (Inr url, w1)"
      and "stage env mar_url signing_cert w1 = (Inr dest2, ws2)"
      and "files ws2 dest2 = Some local"
  shows "\<exists>url2 w2. verify_copy_to_s3 env bn kid ksec mar_url mar_dest signing_cert w1 = (Inr url2, w2)
            \<and> bucket w2 = bucket w1
            \<and> extends_with (\<lambda>ev. \<not> is_put ev) w1 w2
            \<and> ((\<forall>n c. racing w0 n = Some c \<longrightarrow>
                   get_hash env c ''md5'' \<noteq> get_hash env local ''md5'') \<longrightarrow> url2 = url)"
proof -
  have s1: "racing ws1 = racing w0"
    using stage_facts[of env mar_url signing_cert w0] assms(1) by simp
  have s2: "bucket ws2 = bucket w1" "extends_with (\<lambda>ev. \<not> is_put ev) w1 ws2"
    using stage_facts[of env mar_url signing_cert w1] assms(4) by simp_all
  have l1: "verify_copy_to_s3_loop env bn mar_dest dest1 (possible_names mar_dest 10) ws1 = (Inr url, w1)"
    using assms(3) unfolding stage_split[OF assms(1)] .
  from loop_rerun[OF assms(2) l1 assms(5) s2(1)]
  obtain url2 v' where v: "verify_copy_to_s3_loop env bn mar_dest dest2 (possible_names mar_dest 10) ws2 = (Inr url2, v')"
      "bucket v' = bucket ws2" "extends_with (\<lambda>ev. \<not> is_put ev) ws2 v'"
    by blast
  have same: "url2 = url"
    if "\<forall>n c. racing w0 n = Some c \<longrightarrow> get_hash env c ''md5'' \<noteq> get_hash env local ''md5''"
  proof -
    from loop_idempotent[OF assms(2) _ l1 assms(5) s2(1)] that s1
    obtain v2 where "verify_copy_to_s3_loop env bn mar_dest dest2 (possible_names mar_dest 10) ws2 = (Inr url, v2)"
      by auto
    with v(1) show ?thesis by simp
  qed
  have e: "extends_with (\<lambda>ev. \<not> is_put ev) w1 v'"
    using s2(2) v(3) by (rule extends_with_trans)
  show ?thesis
    unfolding stage_split[OF assms(4)] using v(1,2) s2(1) e same by auto
qed

theorem publish_twice_same_url_witness:
  "fst (verify_copy_to_s3 env0 ''bkt'' ''id'' ''secret'' ''https://x/p.mar'' ''b/p.mar'' ''cert''
          (snd (verify_copy_to_s3 env0 ''bkt'' ''id'' ''secret'' ''https://x/p.mar'' ''b/p.mar''
                  ''cert'' world0))) =
     fst (verify_copy_to_s3 env0 ''bkt'' ''id'' ''secret'' ''https://x/p.mar'' ''b/p.mar'' ''cert''
            world0)
   \<and> fst (verify_copy_to_s3 env0 ''bkt'' ''id'' ''secret'' ''https://x/p.mar'' ''b/p.mar'' ''cert''
            world0) = Inr ''bkt/b/p.mar?versionId=0''"
proof -
  let ?pub = "verify_copy_to_s3 env0 ''bkt'' ''id'' ''secret'' ''https://x/p.mar'' ''b/p.mar'' ''cert''"
  let ?st = "stage env0 ''https://x/p.mar'' ''cert''"
  have 1: "?st world0 = (Inr ''/tmp/tmp0'', snd (?st world0))"
    by (rule pair_of_fst) code_simp
  have 2: "files (snd (?st world0)) ''/tmp/tmp0'' = Some ''DATA''" by code_simp
  have first: "fst (?pub world0) = Inr ''bkt/b/p.mar?versionId=0''" by code_simp
  have 3: "?pub world0 = (Inr ''bkt/b/p.mar?versionId=0'', snd (?pub world0))"
    using first by (rule pair_of_fst)
  have 4: "?st (snd (?pub world0)) = (Inr ''/tmp/tmp1'', snd (?st (snd (?pub world0))))"
    by (rule pair_of_fst) code_simp
  have 5: "files (snd (?st (snd (?pub world0)))) ''/tmp/tmp1'' = Some ''DATA''" by code_simp
  have 6: "\<forall>n c. racing world0 n = Some c \<longrightarrow>
             get_hash env0 c ''md5'' \<noteq> get_hash env0 ''DATA'' ''md5''"
    by (simp add: world0_def)
  from publish_twice_same_url[OF 1 2 3 4 5] 6
  obtain w2 where r: "?pub (snd (?pub world0)) = (Inr ''bkt/b/p.mar?versionId=0'', w2)"
    by blast
  have "fst (?pub (snd (?pub world0))) = Inr ''bkt/b/p.mar?versionId=0''"
    unfolding r by simp
  with first show ?thesis by simp
qed

text \<open>
  The claim as stated fails: when a concurrent publisher stores the same content under
  the desired name between the first call's \<open>get_key\<close> and its write, the first call
  publishes under the next name, and the second call returns the URL of the
  publisher's object.
\<close>

theorem publish_twice_race_counterexample:
  "fst (verify_copy_to_s3 env0 ''bkt'' ''id'' ''secret'' ''https://x/p.mar'' ''b/p.mar'' ''cert''
          (world0\<lparr>racing := [''b/p.mar'' \<mapsto> ''DATA'']\<rparr>)) = Inr ''bkt/b/p-1.mar?versionId=1''
   \<and> fst (verify_copy_to_s3 env0 ''bkt'' ''id'' ''secret'' ''https://x/p.mar'' ''b/p.mar'' ''cert''
          (snd (verify_copy_to_s3 env0 ''bkt'' ''id'' ''secret'' ''https://x/p.mar'' ''b/p.mar''
                  ''cert'' (world0\<lparr>racing := [''b/p.mar'' \<mapsto> ''DATA'']\<rparr>)))) =
       Inr ''bkt/b/p.mar?versionId=0''"
  by code_simp

text \<open>
  C5. When a name is absent at \<open>get_key\<close> and a concurrent publisher's object is there
  when the write looks the name up, the loop goes on with the remaining names in a bucket
  that holds the publisher's object; it does not raise, and when the next name is free it
  publishes there.
\<close>

theorem lost_race_continues:
  assumes "bucket w name = None" "racing w name = Some c" "files w dest = Some local"
  shows "\<exists>w1. verify_copy_to_s3_loop env bn mar_dest dest (name # names) w =
               verify_copy_to_s3_loop env bn mar_dest dest names w1
            \<and> bucket w1 = (bucket w)(name \<mapsto>
                 \<lparr>contents = c, version_id = next_version w, acl = ''private''\<rparr>)
            \<and> files w1 = files w
            \<and> (\<forall>next rest. names = next # rest \<and> next \<noteq> name \<and> bucket w next = None
                  \<and> racing w next = None
                \<longrightarrow> fst (verify_copy_to_s3_loop env bn mar_dest dest (name # names) w) =
                      Inr (generate_url env bn next (Suc (next_version w))))"
proof -
  from loop_absent_race[OF assms, of env bn mar_dest names]
  obtain w1 where w1: "verify_copy_to_s3_loop env bn mar_dest dest (name # names) w =
               verify_copy_to_s3_loop env bn mar_dest dest names w1"
      "bucket w1 = (bucket w)(name \<mapsto>
                 \<lparr>contents = c, version_id = next_version w, acl = ''private''\<rparr>)"
      "racing w1 = (racing w)(name := None)" "files w1 = files w"
      "next_version w1 = Suc (next_version w)"
    by blast
  have "fst (verify_copy_to_s3_loop env bn mar_dest dest (name # names) w) =
          Inr (generate_url env bn nx (Suc (next_version w)))"
    if h: "names = nx # rest" "nx \<noteq> name" "bucket w nx = None" "racing w nx = None" for nx rest
  proof -
    have "bucket w1 nx = None" "racing w1 nx = None" "files w1 dest = Some local"
      using w1 h assms(3) by simp_all
    from loop_absent_free[OF this, of env bn mar_dest rest] w1(1,5) h(1)
    show ?thesis by auto
  qed
  with w1 show ?thesis by blast
qed

theorem lost_race_continues_witness:
  "fst (verify_copy_to_s3_loop env0 ''bkt'' ''b/p.mar'' ''/tmp/tmp0'' [''b/p.mar'', ''b/p-1.mar'']
          (world0\<lparr>racing := [''b/p.mar'' \<mapsto> ''OTHER''],
                  files := [''/tmp/tmp0'' \<mapsto> ''DATA'']\<rparr>)) =
     Inr ''bkt/b/p-1.mar?versionId=1''"
proof -
  let ?w = "world0\<lparr>racing := [''b/p.mar'' \<mapsto> ''OTHER''], files := [''/tmp/tmp0'' \<mapsto> ''DATA'']\<rparr>"
  have 1: "bucket ?w ''b/p.mar'' = None" by (simp add: world0_def)
  have 2: "racing ?w ''b/p.mar'' = Some ''OTHER''" by simp
  have 3: "files ?w ''/tmp/tmp0'' = Some ''DATA''" by simp
  have 4: "bucket ?w ''b/p-1.mar'' = None" "racing ?w ''b/p-1.mar'' = None"
          "next_version ?w = 0"
    by (simp_all add: world0_def)
  have 5: "generate_url env0 ''bkt'' ''b/p-1.mar'' (Suc 0) = ''bkt/b/p-1.mar?versionId=1''"
    by code_simp
  from lost_race_continues[OF 1 2 3, of env0 "''bkt''" "''b/p.mar''" "[''b/p-1.mar'']"] 4 5
  show ?thesis by auto
qed

subsection \<open>Classification of the entries\<close>

text \<open>
  C3 (as amended). For an entry that has \<open>to_hash\<close>, \<open>to_size\<close>, \<open>hash\<close> and \<open>size\<close>
  (read before the entry is classified): with \<open>previousVersion\<close> and
  \<open>previousBuildNumber\<close> it is submitted release-style; otherwise, with \<open>from_buildid\<close>
  and uploads enabled, nightly-style; otherwise the \<open>RuntimeError\<close> of the classification
  is raised and nothing else happens. No other field is looked at.
\<close>

theorem submit_entry_classification:
  assumes "getitem e ''to_hash'' = Inr to_hash" "getitem e ''to_size'' = Inr to_size"
      and "getitem e ''hash'' = Inr h" "getitem e ''size'' = Inr s"
  shows "submit_entry env args auth uploads_enabled parent_url signing_cert e w =
     (if contains e ''previousVersion'' \<and> contains e ''previousBuildNumber''
      then release_style env args auth e
             [(''hash'', h), (''size'', s)] [(''hash'', to_hash), (''size'', to_size)] w
      else if contains e ''from_buildid'' \<and> uploads_enabled
      then nightly_style env args auth parent_url signing_cert e
             [(''hash'', h), (''size'', s)] [(''hash'', to_hash), (''size'', to_size)] w
      else (Inl (RuntimeError [''Cannot determine Balrog submission style'']), w))
   \<and> (\<exists>evs. trace (snd (submit_entry env args auth uploads_enabled parent_url signing_cert e w)) =
         trace w @
         (if contains e ''previousVersion'' \<and> contains e ''previousBuildNumber''
          then Log ''INFO'' ''Release style balrog submission'' [] # evs
          else if contains e ''from_buildid'' \<and> uploads_enabled
          then Log ''INFO'' ''Nightly style balrog submission'' [] # evs
          else []))"
proof -
  note eq = submit_entry_branches[OF assms, of env args auth uploads_enabled parent_url signing_cert w]
  show ?thesis
  proof (cases "contains e ''previousVersion'' \<and> contains e ''previousBuildNumber''")
    case True
    then show ?thesis
      using eq release_style_trace[of e env args auth "[(''hash'', h), (''size'', s)]"
              "[(''hash'', to_hash), (''size'', to_size)]" w]
      by auto
  next
    case False
    show ?thesis
    proof (cases "contains e ''from_buildid'' \<and> uploads_enabled")
      case True
      with False show ?thesis
        using eq nightly_style_trace[of env args auth parent_url signing_cert e
                "[(''hash'', h), (''size'', s)]" "[(''hash'', to_hash), (''size'', to_size)]" w]
        by auto
    next
      case nf: False
      with False eq show ?thesis by auto
    qed
  qed
qed

theorem submit_entry_classification_witness:
  "fst (submit_entry env0 args0 (''user'', ''password'') False ''https://parent'' ''cert''
          entry0 world0) =
     Inl (RuntimeError [''Cannot determine Balrog submission style''])
   \<and> (\<exists>evs. trace (snd (submit_entry env0 args0 (''user'', ''password'') True ''https://parent''
                          ''cert'' entry0 world0)) =
              Log ''INFO'' ''Nightly style balrog submission'' [] # evs)"
proof -
  have g: "getitem entry0 ''to_hash'' = Inr (JStr ''h2'')"
          "getitem entry0 ''to_size'' = Inr (JNum 200)"
          "getitem entry0 ''hash'' = Inr (JStr ''h1'')"
          "getitem entry0 ''size'' = Inr (JNum 100)"
    by (simp_all add: getitem_def entry0_def)
  have c: "\<not> contains entry0 ''previousVersion''" "contains entry0 ''from_buildid''"
    by (simp_all add: contains_def entry0_def)
  from submit_entry_classification[OF g, of env0 args0 "(''user'', ''password'')" False
         "''https://parent''" "''cert''" world0]
       submit_entry_classification[OF g, of env0 args0 "(''user'', ''password'')" True
         "''https://parent''" "''cert''" world0] c
  show ?thesis by (auto simp: world0_def)
qed

text \<open>
  The claim as stated fails: an entry with \<open>from_buildid\<close> and \<open>previousVersion\<close> but no
  \<open>previousBuildNumber\<close> meets neither of the claim's two conditions and is submitted
  nightly-style, with success; and an entry without \<open>to_hash\<close> fails with a \<open>KeyError\<close>.
\<close>

theorem submit_entry_classification_counterexample:
  "contains (entry0 @ [(''previousVersion'', JStr ''1.0'')]) ''from_buildid''
   \<and> contains (entry0 @ [(''previousVersion'', JStr ''1.0'')]) ''previousVersion''
   \<and> \<not> contains (entry0 @ [(''previousVersion'', JStr ''1.0'')]) ''previousBuildNumber''
   \<and> fst (submit_entry env0 args0 (''user'', ''password'') True ''https://parent'' ''cert''
            (entry0 @ [(''previousVersion'', JStr ''1.0'')]) world0) = Inr ()
   \<and> fst (submit_entry env0 args0 (''user'', ''password'') True ''https://parent'' ''cert''
            [(''platform'', JStr ''linux64'')] world0) = Inl (KeyError ''to_hash'')"
proof -
  let ?e = "entry0 @ [(''previousVersion'', JStr ''1.0'')]"
  let ?w1 = "log_info ''Nightly style balrog submission'' [] world0"
  let ?pub1 = "verify_copy_to_s3 env0 ''bkt'' ''id'' ''secret'' ''https://parent/p.mar''
                 ''release/B2/p.mar'' ''cert''"
  let ?pub2 = "verify_copy_to_s3 env0 ''bkt'' ''id'' ''secret'' ''https://x/c.mar''
                 ''release/B2/app-release-2.0-linux64-en-US.complete.mar'' ''cert''"
  let ?u1 = "''bkt/release/B2/p.mar?versionId=0''"
  let ?u2 = "''bkt/release/B2/app-release-2.0-linux64-en-US.complete.mar?versionId=1''"
  have c: "contains ?e ''from_buildid''" "contains ?e ''previousVersion''"
          "\<not> contains ?e ''previousBuildNumber''"
    by (simp_all add: contains_def entry0_def)
  define w2 where "w2 = snd (?pub1 ?w1)"
  have p1: "?pub1 ?w1 = (Inr ?u1, w2)"
    unfolding w2_def by (rule pair_of_fst) code_simp
  define w3 where "w3 = snd (?pub2 w2)"
  have p2: "?pub2 w2 = (Inr ?u2, w3)"
    unfolding w3_def w2_def by (rule pair_of_fst) code_simp
  have p3: "fst (nightly_submit env0 ?e
              [(''hash'', JStr ''h1''), (''size'', JNum 100), (''url'', JStr ?u1),
               (''from_buildid'', JStr ''B1'')]
              [(''hash'', JStr ''h2''), (''size'', JNum 200), (''url'', JStr ?u2)] w3) = Inr ()"
    unfolding w3_def w2_def by code_simp
  have ok: "fst (submit_entry env0 args0 (''user'', ''password'') True ''https://parent'' ''cert''
            ?e world0) = Inr ()"
    using c p3
    by (simp add: submit_entry_def nightly_style_def wbind_def wlift_def Let_def getitem_def
          entry0_def args0_def p1 p2)
  have ko: "fst (submit_entry env0 args0 (''user'', ''password'') True ''https://parent'' ''cert''
            [(''platform'', JStr ''linux64'')] world0) = Inl (KeyError ''to_hash'')"
    by (simp add: submit_entry_def wbind_def wlift_def getitem_def)
  from c ok ko show ?thesis by simp
qed



subsection \<open>The nightly-style submission under retry\<close>

lemma quiet_refl [simp]: "quiet w w"
  by (simp add: quiet_def)

lemma quiet_trans: "quiet w w1 \<Longrightarrow> quiet w1 w2 \<Longrightarrow> quiet w w2"
  by (auto simp: quiet_def intro: extends_with_trans)

lemma quiet_log [simp]:
  "quiet w (log_info fmt xs w)" "quiet w (log_debug fmt xs w)" "quiet w (log_warn fmt xs w)"
  "quiet w (sleep s w)"
  by (simp_all add: quiet_def log_defs emit_def extends_with_def)

lemma download_once_quiet: "quiet w (snd (download_once env url dest mode w))"
  by (auto simp: quiet_def download_defs emit_def extends_with_def split: sum.splits option.splits)

lemma download_quiet: "quiet w (snd (download env url dest mode w))"
proof -
  have "extends_with (\<lambda>ev. \<not> is_nightly_run ev) w (snd (download env url dest mode w))"
    unfolding download_def retry_def
    by (rule retry_from_extends) (simp_all add: download_once_quiet[unfolded quiet_def])
  moreover have "submissions (snd (download env url dest mode w)) = submissions w"
    unfolding download_def retry_def
    by (rule retry_from_inv[where I = "\<lambda>v. submissions v = submissions w"])
       (simp_all add: download_once_quiet[unfolded quiet_def] sleep_def emit_def)
  ultimately show ?thesis by (simp add: quiet_def)
qed

lemma stage_quiet: "quiet w (snd (stage env mar_url signing_cert w))"
proof -
  let ?dest = "''/tmp/tmp'' @ str_nat (tmp_count w)"
  let ?w1 = "log_info ''Downloading %s to %s...'' [JStr mar_url, JStr ?dest]
               (w\<lparr>files := (files w)(?dest \<mapsto> []), tmp_count := Suc (tmp_count w)\<rparr>)"
  obtain r w2 where d: "download env mar_url ?dest None ?w1 = (r, w2)"
    by (cases "download env mar_url ?dest None ?w1")
  have "quiet ?w1 w2" using download_quiet[of ?w1 env mar_url ?dest None] d by simp
  moreover have "quiet w ?w1"
    by (simp add: quiet_def extends_with_def log_defs emit_def)
  ultimately have q: "quiet w w2" by (rule quiet_trans[rotated])
  have q1: "quiet w (log_info ''Verifying the signature...'' [] w2)"
    using q quiet_trans quiet_log(1) by blast
  have q2: "quiet w (log_info ''Checking %s signature'' [JStr ?dest]
      (log_info ''Verifying the signature...'' [] w2))"
    using q1 quiet_trans quiet_log(1) by blast
  show ?thesis
    using d q q1 q2
    by (auto simp: stage_def mkstemp_def Let_def verify_signature_def
          split: sum.splits option.splits)
qed

lemma loop_step_quiet:
  "quiet w (snd (verify_copy_to_s3_loop env bn mar_dest dest (name # names) w))
   \<or> (\<exists>w1. verify_copy_to_s3_loop env bn mar_dest dest (name # names) w =
               verify_copy_to_s3_loop env bn mar_dest dest names w1 \<and> quiet w w1)"
proof (cases "files w dest")
  case None
  then have "quiet w (snd (verify_copy_to_s3_loop env bn mar_dest dest (name # names) w))"
    by (cases "bucket w name")
       (simp_all add: store_defs log_defs quiet_def extends_with_def emit_def)
  then show ?thesis ..
next
  case (Some local)
  note fl = Some
  show ?thesis
  proof (cases "bucket w name")
    case (Some kn)
    show ?thesis
    proof (cases "get_hash env (contents kn) ''md5'' = get_hash env local ''md5''")
      case True
      with Some fl
      have "quiet w (snd (verify_copy_to_s3_loop env bn mar_dest dest (name # names) w))"
        by (simp add: store_defs log_defs quiet_def extends_with_def emit_def)
      then show ?thesis ..
    next
      case False
      with Some fl show ?thesis
        apply (intro disjI2)
        apply (simp add: store_defs log_defs Let_def)
        apply (rule exI, rule conjI, rule refl)
        apply (simp add: quiet_def extends_with_def emit_def)
        done
    qed
  next
    case None
    show ?thesis
    proof (cases "racing w name")
      case (Some c)
      with None fl show ?thesis
        apply (intro disjI2)
        apply (simp add: store_defs log_defs Let_def)
        apply (rule exI, rule conjI, rule refl)
        apply (simp add: quiet_def extends_with_def emit_def)
        done
    next
      case rn: None
      with None fl
      have "quiet w (snd (verify_copy_to_s3_loop env bn mar_dest dest (name # names) w))"
        by (simp add: store_defs log_defs quiet_def extends_with_def emit_def Let_def)
      then show ?thesis ..
    qed
  qed
qed

lemma loop_quiet:
  "quiet w (snd (verify_copy_to_s3_loop env bn mar_dest dest names w))"
proof (induction names arbitrary: w)
  case Nil
  then show ?case by simp
next
  case (Cons name names)
  from loop_step_quiet[of w env bn mar_dest dest name names] show ?case
  proof
    assume "quiet w (snd (verify_copy_to_s3_loop env bn mar_dest dest (name # names) w))"
    then show ?thesis .
  next
    assume "\<exists>w1. verify_copy_to_s3_loop env bn mar_dest dest (name # names) w =
               verify_copy_to_s3_loop env bn mar_dest dest names w1 \<and> quiet w w1"
    then obtain w1 where w1: "verify_copy_to_s3_loop env bn mar_dest dest (name # names) w =
               verify_copy_to_s3_loop env bn mar_dest dest names w1" "quiet w w1"
      by blast
    show ?thesis unfolding w1(1) using w1(2) Cons.IH[of w1] by (rule quiet_trans)
  qed
qed

lemma verify_copy_to_s3_quiet:
  "quiet w (snd (verify_copy_to_s3 env bn kid ksec mar_url mar_dest signing_cert w))"
proof -
  obtain r ws where s: "stage env mar_url signing_cert w = (r, ws)"
    by (cases "stage env mar_url signing_cert w")
  have q: "quiet w ws" using stage_quiet[of w env mar_url signing_cert] s by simp
  show ?thesis
  proof (cases r)
    case (Inl err)
    with s q show ?thesis by (simp add: verify_copy_to_s3_def)
  next
    case (Inr dest)
    with s show ?thesis
      using quiet_trans[OF q loop_quiet[of ws env bn mar_dest dest "possible_names mar_dest 10"]]
      by (simp add: verify_copy_to_s3_def)
  qed
qed

lemma retry_nightly_runs:
  "\<exists>n. 0 < n \<and> k + n \<le> max (Suc k) (Suc (attempts pol))
     \<and> trace (snd (retry_from k pol (run_submitter env NightlyStyle kw) w)) =
         trace w @ retried (NightlyRun kw) (sleeptime pol) (max_sleeptime pol) k n
     \<and> (\<forall>i. Suc i < n \<longrightarrow> submitter_run env (submissions w + i) \<noteq> None)
     \<and> fst (retry_from k pol (run_submitter env NightlyStyle kw) w) =
         (case submitter_run env (submissions w + (n - 1)) of
            None \<Rightarrow> Inr () | Some err \<Rightarrow> Inl err)
     \<and> (k + n \<le> attempts pol \<longrightarrow> submitter_run env (submissions w + (n - 1)) = None)"
proof (induction k pol "run_submitter env NightlyStyle kw" w rule: retry_from.induct)
  case (1 k pol w)
  let ?op = "run_submitter env NightlyStyle kw"
  let ?w' = "emit (NightlyRun kw) (w\<lparr>submissions := Suc (submissions w)\<rparr>)"
  show ?case
  proof (cases "submitter_run env (submissions w)")
    case None
    then have r: "retry_from k pol ?op w = (Inr (), ?w')"
      by (subst retry_from.simps) (simp add: run_submitter_def Let_def)
    show ?thesis unfolding r using None by (intro exI[of _ 1]) (simp add: emit_def)
  next
    case (Some err)
    then have ow: "?op w = (Inl err, ?w')" by (simp add: run_submitter_def Let_def)
    show ?thesis
    proof (cases "attempts pol \<le> k")
      case True
      with ow have r: "retry_from k pol ?op w = (Inl err, ?w')"
        by (subst retry_from.simps) simp
      show ?thesis unfolding r using Some True by (intro exI[of _ 1]) (simp add: emit_def)
    next
      case False
      let ?s = "min (sleeptime pol * 2 ^ (k - 1)) (max_sleeptime pol)"
      let ?w2 = "sleep ?s ?w'"
      from ow False have r: "retry_from k pol ?op w = retry_from (Suc k) pol ?op ?w2"
        by (subst retry_from.simps) simp
      from "1.hyps"[OF ow[symmetric] refl False]
      obtain n where n: "0 < n" "Suc k + n \<le> max (Suc (Suc k)) (Suc (attempts pol))"
          "trace (snd (retry_from (Suc k) pol ?op ?w2)) =
             trace ?w2 @ retried (NightlyRun kw) (sleeptime pol) (max_sleeptime pol) (Suc k) n"
          "\<forall>i. Suc i < n \<longrightarrow> submitter_run env (submissions ?w2 + i) \<noteq> None"
          "fst (retry_from (Suc k) pol ?op ?w2) =
             (case submitter_run env (submissions ?w2 + (n - 1)) of
                None \<Rightarrow> Inr () | Some err \<Rightarrow> Inl err)"
          "Suc k + n \<le> attempts pol \<longrightarrow> submitter_run env (submissions ?w2 + (n - 1)) = None"
        by blast
      have s2: "submissions ?w2 = Suc (submissions w)" by (simp add: sleep_def emit_def)
      have t2: "trace ?w2 = trace w @ [NightlyRun kw, Sleep ?s]" by (simp add: sleep_def emit_def)
      have a: "\<forall>i. Suc i < Suc n \<longrightarrow> submitter_run env (submissions w + i) \<noteq> None"
      proof (intro allI impI)
        fix i assume i: "Suc i < Suc n"
        show "submitter_run env (submissions w + i) \<noteq> None"
        proof (cases i)
          case 0
          with Some show ?thesis by simp
        next
          case (Suc j)
          with i n(4) s2 show ?thesis by simp
        qed
      qed
      have ix: "submissions ?w2 + (n - 1) = submissions w + (Suc n - 1)" using n(1) s2 by simp
      have c1: "0 < Suc n" by simp
      have c2: "k + Suc n \<le> max (Suc k) (Suc (attempts pol))" using n(2) False by simp
      have c3: "trace (snd (retry_from (Suc k) pol ?op ?w2)) =
          trace w @ retried (NightlyRun kw) (sleeptime pol) (max_sleeptime pol) k (Suc n)"
        unfolding n(3) t2 using n(1) by simp
      have c5: "fst (retry_from (Suc k) pol ?op ?w2) =
             (case submitter_run env (submissions w + (Suc n - 1)) of
                None \<Rightarrow> Inr () | Some err \<Rightarrow> Inl err)"
        unfolding n(5) ix ..
      have c6: "k + Suc n \<le> attempts pol \<longrightarrow> submitter_run env (submissions w + (Suc n - 1)) = None"
        using n(6) unfolding ix by simp
      show ?thesis
        unfolding r using c1 c2 c3 a c5 c6 by blast
    qed
  qed
qed

lemma wbind_inr: "wbind (wlift (Inr x)) f = f x"
  by (rule ext) simp

lemma nightly_entry_published:
  assumes "\<not> (contains e ''previousVersion'' \<and> contains e ''previousBuildNumber'')"
      and "contains e ''from_buildid''" and "uploads_enabled"
      and "contains e ''to_hash''" "contains e ''to_size''" "contains e ''hash''" "contains e ''size''"
      and "getitem e ''mar'' = Inr mar" "getitem e ''to_mar'' = Inr to_mar"
      and "getitem e ''branch'' = Inr branch" "getitem e ''to_buildid'' = Inr to_buildid"
      and "getitem e ''appName'' = Inr appName" "getitem e ''version'' = Inr version"
      and "getitem e ''platform'' = Inr platform" "getitem e ''locale'' = Inr locale"
      and "verify_copy_to_s3 env (s3_bucket args) (aws_key_id args) (aws_key_secret args)
             (parent_url @ ''/'' @ py_format env mar)
             (py_format env branch @ ''/'' @ py_format env to_buildid @ ''/'' @ py_format env mar)
             signing_cert (log_info ''Nightly style balrog submission'' [] w) =
           (Inr partial_url, w1)"
      and "verify_copy_to_s3 env (s3_bucket args) (aws_key_id args) (aws_key_secret args)
             (py_format env to_mar)
             (py_format env branch @ ''/'' @ py_format env to_buildid @ ''/'' @
              py_format env appName @ ''-'' @ py_format env branch @ ''-'' @
              py_format env version @ ''-'' @ py_format env platform @ ''-'' @
              py_format env locale @ ''.complete.mar'')
             signing_cert w1 =
           (Inr complete_url, w2)"
  shows "\<exists>kw. submit_entry env args auth uploads_enabled parent_url signing_cert e w =
           retry_from 1 \<lparr>attempts = 30, sleeptime = 10, max_sleeptime = 60\<rparr>
             (run_submitter env NightlyStyle kw) w2"
    and "quiet w w2"
proof -
  obtain to_hash to_size h s fb where g: "getitem e ''to_hash'' = Inr to_hash"
      "getitem e ''to_size'' = Inr to_size" "getitem e ''hash'' = Inr h"
      "getitem e ''size'' = Inr s" "getitem e ''from_buildid'' = Inr fb"
    using assms(2,4-7) getitem_contains by meson
  let ?pi = "[(''hash'', h), (''size'', s)]" and ?ci = "[(''hash'', to_hash), (''size'', to_size)]"
  let ?pi' = "setitem (setitem ?pi ''url'' (JStr partial_url)) ''from_buildid'' fb"
  let ?ci' = "setitem ?ci ''url'' (JStr complete_url)"
  have r: "submit_entry env args auth uploads_enabled parent_url signing_cert e w =
           nightly_style env args auth parent_url signing_cert e ?pi ?ci w"
    using assms(1-3) by (auto simp: submit_entry_branches[OF g(1-4)])
  have ns: "nightly_style env args auth parent_url signing_cert e ?pi ?ci w =
           nightly_submit env e ?pi' ?ci' w2"
    using assms(8-17) g(5) by (simp add: nightly_style_def wbind_def wlift_def Let_def)
  have "\<exists>kw. nightly_call env e ?pi' ?ci' = run_submitter env NightlyStyle kw"
    using assms(8-15)
    apply (simp add: nightly_call_def wbind_inr)
    apply (rule exI, rule refl)
    done
  then obtain kw where kw: "nightly_call env e ?pi' ?ci' = run_submitter env NightlyStyle kw" ..
  show "\<exists>kw. submit_entry env args auth uploads_enabled parent_url signing_cert e w =
           retry_from 1 \<lparr>attempts = 30, sleeptime = 10, max_sleeptime = 60\<rparr>
             (run_submitter env NightlyStyle kw) w2"
    unfolding r ns nightly_submit_def retry_def kw by blast
  have "quiet (log_info ''Nightly style balrog submission'' [] w) w1"
    using verify_copy_to_s3_quiet[of "log_info ''Nightly style balrog submission'' [] w"]
      assms(16) by (metis snd_conv)
  moreover have "quiet w1 w2"
    using verify_copy_to_s3_quiet[of w1] assms(17) by (metis snd_conv)
  ultimately show "quiet w w2" using quiet_log(1) quiet_trans by blast
qed

lemma submit_entry_missing:
  assumes "\<not> (contains e ''to_hash'' \<and> contains e ''to_size'' \<and> contains e ''hash''
              \<and> contains e ''size'')"
  shows "\<exists>err. submit_entry env args auth uploads_enabled parent_url signing_cert e w = (Inl err, w)"
proof (cases "getitem e ''to_hash''")
  case Inl then show ?thesis by (simp add: submit_entry_def)
next
  case a: (Inr a)
  show ?thesis
  proof (cases "getitem e ''to_size''")
    case Inl with a show ?thesis by (simp add: submit_entry_def)
  next
    case b: (Inr b)
    show ?thesis
    proof (cases "getitem e ''hash''")
      case Inl with a b show ?thesis by (simp add: submit_entry_def)
    next
      case c: (Inr c)
      show ?thesis
      proof (cases "getitem e ''size''")
        case Inl with a b c show ?thesis by (simp add: submit_entry_def)
      next
        case (Inr d)
        with a b c assms show ?thesis
          by (simp add: getitem_def contains_def split: option.splits)
      qed
    qed
  qed
qed

lemma nightly_style_missing:
  assumes "\<not> (contains e ''mar'' \<and> contains e ''to_mar'' \<and> contains e ''branch''
              \<and> contains e ''to_buildid'' \<and> contains e ''appName''
              \<and> contains e ''version'' \<and> contains e ''platform'' \<and> contains e ''locale'')"
  shows "\<exists>err. nightly_style env args auth parent_url signing_cert e pi ci w =
           (Inl err, log_info ''Nightly style balrog submission'' [] w)"
  using assms
  apply (cases "getitem e ''mar''")
   apply (simp add: nightly_style_def wbind_def wlift_def)
  apply (cases "getitem e ''to_mar''")
   apply (simp add: nightly_style_def wbind_def wlift_def)
  apply (cases "getitem e ''branch''")
   apply (simp add: nightly_style_def wbind_def wlift_def)
  apply (cases "getitem e ''to_buildid''")
   apply (simp add: nightly_style_def wbind_def wlift_def)
  apply (cases "getitem e ''appName''")
   apply (simp add: nightly_style_def wbind_def wlift_def)
  apply (cases "getitem e ''version''")
   apply (simp add: nightly_style_def wbind_def wlift_def)
  apply (cases "getitem e ''platform''")
   apply (simp add: nightly_style_def wbind_def wlift_def)
  apply (cases "getitem e ''locale''")
   apply (simp add: nightly_style_def wbind_def wlift_def)
  apply (simp add: getitem_def contains_def split: option.splits)
  done

lemma quiet_snd: "f w = (r, v) \<Longrightarrow> quiet w (snd (f w)) \<Longrightarrow> quiet w v"
  by simp

lemma nightly_entry_shape:
  assumes "\<not> (contains e ''previousVersion'' \<and> contains e ''previousBuildNumber'')"
      and "contains e ''from_buildid''" and "uploads_enabled"
  shows "(\<exists>err v. submit_entry env args auth uploads_enabled parent_url signing_cert e w =
                    (Inl err, v) \<and> quiet w v)
       \<or> (\<exists>kw v. submit_entry env args auth uploads_enabled parent_url signing_cert e w =
                    retry_from 1 \<lparr>attempts = 30, sleeptime = 10, max_sleeptime = 60\<rparr>
                      (run_submitter env NightlyStyle kw) v \<and> quiet w v)"
proof -
  let ?R = "submit_entry env args auth uploads_enabled parent_url signing_cert e w"
  let ?w0 = "log_info ''Nightly style balrog submission'' [] w"
  have fail: ?thesis if "?R = (Inl err, v)" "quiet w v" for err v
    using that by blast
  show ?thesis
  proof (cases "contains e ''to_hash'' \<and> contains e ''to_size'' \<and> contains e ''hash''
                \<and> contains e ''size''")
    case False
    from submit_entry_missing[OF False, of env args auth uploads_enabled parent_url signing_cert w]
    obtain err where "?R = (Inl err, w)" ..
    then show ?thesis by (rule fail) simp
  next
    case hs: True
    from hs getitem_contains obtain to_hash where g1: "getitem e ''to_hash'' = Inr to_hash" by blast
    from hs getitem_contains obtain to_size where g2: "getitem e ''to_size'' = Inr to_size" by blast
    from hs getitem_contains obtain h where g3: "getitem e ''hash'' = Inr h" by blast
    from hs getitem_contains obtain s where g4: "getitem e ''size'' = Inr s" by blast
    let ?pi = "[(''hash'', h), (''size'', s)]" and ?ci = "[(''hash'', to_hash), (''size'', to_size)]"
    have r: "?R = nightly_style env args auth parent_url signing_cert e ?pi ?ci w"
      using assms by (auto simp: submit_entry_branches[OF g1 g2 g3 g4])
    show ?thesis
    proof (cases "contains e ''mar'' \<and> contains e ''to_mar'' \<and> contains e ''branch''
                  \<and> contains e ''to_buildid'' \<and> contains e ''appName''
                  \<and> contains e ''version'' \<and> contains e ''platform'' \<and> contains e ''locale''")
      case False
      from nightly_style_missing[OF False, of env args auth parent_url signing_cert ?pi ?ci w]
      obtain err where "nightly_style env args auth parent_url signing_cert e ?pi ?ci w =
                   (Inl err, ?w0)" ..
      with r have "?R = (Inl err, ?w0)" by simp
      then show ?thesis by (rule fail) simp
    next
      case fs: True
      from fs getitem_contains obtain mar where f1: "getitem e ''mar'' = Inr mar" by blast
      from fs getitem_contains obtain to_mar where f2: "getitem e ''to_mar'' = Inr to_mar" by blast
      from fs getitem_contains obtain branch where f3: "getitem e ''branch'' = Inr branch" by blast
      from fs getitem_contains obtain to_buildid where f4: "getitem e ''to_buildid'' = Inr to_buildid" by blast
      from fs getitem_contains obtain appName where f5: "getitem e ''appName'' = Inr appName" by blast
      from fs getitem_contains obtain version where f6: "getitem e ''version'' = Inr version" by blast
      from fs getitem_contains obtain platform where f7: "getitem e ''platform'' = Inr platform" by blast
      from fs getitem_contains obtain loc where f8: "getitem e ''locale'' = Inr loc" by blast
      note f = f1 f2 f3 f4 f5 f6 f7 f8
      let ?pub1 = "verify_copy_to_s3 env (s3_bucket args) (aws_key_id args) (aws_key_secret args)
             (parent_url @ ''/'' @ py_format env mar)
             (py_format env branch @ ''/'' @ py_format env to_buildid @ ''/'' @ py_format env mar)
             signing_cert"
      let ?pub2 = "verify_copy_to_s3 env (s3_bucket args) (aws_key_id args) (aws_key_secret args)
             (py_format env to_mar)
             (py_format env branch @ ''/'' @ py_format env to_buildid @ ''/'' @
              py_format env appName @ ''-'' @ py_format env branch @ ''-'' @
              py_format env version @ ''-'' @ py_format env platform @ ''-'' @
              py_format env loc @ ''.complete.mar'')
             signing_cert"
      obtain r1 w1 where p1: "?pub1 ?w0 = (r1, w1)" by (cases "?pub1 ?w0")
      have "quiet ?w0 w1" using p1 by (rule quiet_snd) (rule verify_copy_to_s3_quiet)
      with quiet_log(1) have q1: "quiet w w1" by (rule quiet_trans)
      show ?thesis
      proof (cases r1)
        case (Inl err)
        have "nightly_style env args auth parent_url signing_cert e ?pi ?ci w = (Inl err, w1)"
          using f p1 Inl by (simp add: nightly_style_def wbind_def wlift_def Let_def)
        with r have "?R = (Inl err, w1)" by simp
        then show ?thesis using q1 by (rule fail)
      next
        case u1: (Inr partial_url)
        obtain r2 w2 where p2: "?pub2 w1 = (r2, w2)" by (cases "?pub2 w1")
        have "quiet w1 w2" using p2 by (rule quiet_snd) (rule verify_copy_to_s3_quiet)
        with q1 have q2: "quiet w w2" by (rule quiet_trans)
        show ?thesis
        proof (cases r2)
          case (Inl err)
          have "nightly_style env args auth parent_url signing_cert e ?pi ?ci w = (Inl err, w2)"
            using f p1 p2 u1 Inl by (simp add: nightly_style_def wbind_def wlift_def Let_def)
          with r have "?R = (Inl err, w2)" by simp
          then show ?thesis using q2 by (rule fail)
        next
          case u2: (Inr complete_url)
          from nightly_entry_published(1)[where auth = auth, OF assms hs[THEN conjunct1]
                 hs[THEN conjunct2, THEN conjunct1]
                 hs[THEN conjunct2, THEN conjunct2, THEN conjunct1]
                 hs[THEN conjunct2, THEN conjunct2, THEN conjunct2] f
                 p1[unfolded u1] p2[unfolded u2]]
          show ?thesis using q2 by blast
        qed
      qed
    qed
  qed
qed

lemma retried_sleeps:
  "sleeps_of (retried (NightlyRun kw) base cap k n) =
     map (\<lambda>j. min (base * 2 ^ (j - 1)) cap) [k..<k + (n - 1)]"
proof (induction n arbitrary: k)
  case 0
  then show ?case by simp
next
  case (Suc n)
  show ?case
  proof (cases n)
    case 0
    then show ?thesis by simp
  next
    case (Suc m)
    have u: "[k..<k + Suc m] = k # [Suc k..<Suc k + m]"
      by (simp add: upt_conv_Cons del: upt_Suc)
    show ?thesis using Suc.IH[of "Suc k"] Suc u by (simp del: upt_Suc)
  qed
qed

text \<open>
  C6. An entry that is routed to the nightly-style branch makes its calls of
  \<open>submitter.run\<close> only under \<^verbatim>\<open>retry\<close> with 30 attempts, a sleep of 10 seconds and a
  maximum sleep of 60 seconds. The events of \<open>submit_entry\<close> are a part \<open>pre\<close> without any
  nightly-style run (the log line, the field reads and the two publications), followed by
  \<open>n\<close> runs with the same arguments, at most 30, the \<open>k\<close>-th of them followed, when it is not
  the last, by a sleep of \<open>min (10 * 2^(k-1)) 60\<close> seconds. Every run but the last has
  failed; the result is the outcome of the last run; the runs stop before the thirtieth
  only on a success. There is no run (\<open>n = 0\<close>) only when the entry fails before the
  submission; when the fields are there and both publications return a URL, the runs
  start right after the second publication and there is at least one.
\<close>

theorem nightly_submission_retry_budget:
  assumes "\<not> (contains e ''previousVersion'' \<and> contains e ''previousBuildNumber'')"
      and "contains e ''from_buildid''" and "uploads_enabled"
  shows "\<exists>pre kw n.
      trace (snd (submit_entry env args auth uploads_enabled parent_url signing_cert e w)) =
        trace w @ pre @ retried (NightlyRun kw) 10 60 1 n
    \<and> list_all (\<lambda>ev. \<not> is_nightly_run ev) pre
    \<and> n \<le> 30
    \<and> (\<forall>k. Suc k < n \<longrightarrow> submitter_run env (submissions w + k) \<noteq> None)
    \<and> (0 < n \<longrightarrow>
         fst (submit_entry env args auth uploads_enabled parent_url signing_cert e w) =
           (case submitter_run env (submissions w + (n - 1)) of
              None \<Rightarrow> Inr () | Some err \<Rightarrow> Inl err))
    \<and> (0 < n \<and> n < 30 \<longrightarrow> submitter_run env (submissions w + (n - 1)) = None)
    \<and> (n = 0 \<longrightarrow>
         isl (fst (submit_entry env args auth uploads_enabled parent_url signing_cert e w)))
    \<and> (contains e ''to_hash'' \<and> contains e ''to_size'' \<and> contains e ''hash''
       \<and> contains e ''size''
       \<and> getitem e ''mar'' = Inr mar \<and> getitem e ''to_mar'' = Inr to_mar
       \<and> getitem e ''branch'' = Inr branch \<and> getitem e ''to_buildid'' = Inr to_buildid
       \<and> getitem e ''appName'' = Inr appName \<and> getitem e ''version'' = Inr version
       \<and> getitem e ''platform'' = Inr platform \<and> getitem e ''locale'' = Inr loc
       \<and> verify_copy_to_s3 env (s3_bucket args) (aws_key_id args) (aws_key_secret args)
            (parent_url @ ''/'' @ py_format env mar)
            (py_format env branch @ ''/'' @ py_format env to_buildid @ ''/'' @ py_format env mar)
            signing_cert (log_info ''Nightly style balrog submission'' [] w) =
          (Inr partial_url, w1)
       \<and> verify_copy_to_s3 env (s3_bucket args) (aws_key_id args) (aws_key_secret args)
            (py_format env to_mar)
            (py_format env branch @ ''/'' @ py_format env to_buildid @ ''/'' @
             py_format env appName @ ''-'' @ py_format env branch @ ''-'' @
             py_format env version @ ''-'' @ py_format env platform @ ''-'' @
             py_format env loc @ ''.complete.mar'')
            signing_cert w1 =
          (Inr complete_url, w2)
       \<longrightarrow> 0 < n \<and> trace w @ pre = trace w2)"
proof -
  let ?R = "submit_entry env args auth uploads_enabled parent_url signing_cert e w"
  let ?pol = "\<lparr>attempts = 30, sleeptime = 10, max_sleeptime = 60\<rparr>"
  let ?prem = "contains e ''to_hash'' \<and> contains e ''to_size'' \<and> contains e ''hash''
       \<and> contains e ''size''
       \<and> getitem e ''mar'' = Inr mar \<and> getitem e ''to_mar'' = Inr to_mar
       \<and> getitem e ''branch'' = Inr branch \<and> getitem e ''to_buildid'' = Inr to_buildid
       \<and> getitem e ''appName'' = Inr appName \<and> getitem e ''version'' = Inr version
       \<and> getitem e ''platform'' = Inr platform \<and> getitem e ''locale'' = Inr loc
       \<and> verify_copy_to_s3 env (s3_bucket args) (aws_key_id args) (aws_key_secret args)
            (parent_url @ ''/'' @ py_format env mar)
            (py_format env branch @ ''/'' @ py_format env to_buildid @ ''/'' @ py_format env mar)
            signing_cert (log_info ''Nightly style balrog submission'' [] w) =
          (Inr partial_url, w1)
       \<and> verify_copy_to_s3 env (s3_bucket args) (aws_key_id args) (aws_key_secret args)
            (py_format env to_mar)
            (py_format env branch @ ''/'' @ py_format env to_buildid @ ''/'' @
             py_format env appName @ ''-'' @ py_format env branch @ ''-'' @
             py_format env version @ ''-'' @ py_format env platform @ ''-'' @
             py_format env loc @ ''.complete.mar'')
            signing_cert w1 =
          (Inr complete_url, w2)"
  define X where "X pre kw n \<longleftrightarrow>
      trace (snd ?R) = trace w @ pre @ retried (NightlyRun kw) 10 60 1 n
    \<and> list_all (\<lambda>ev. \<not> is_nightly_run ev) pre
    \<and> n \<le> 30
    \<and> (\<forall>k. Suc k < n \<longrightarrow> submitter_run env (submissions w + k) \<noteq> None)
    \<and> (0 < n \<longrightarrow> fst ?R =
           (case submitter_run env (submissions w + (n - 1)) of
              None \<Rightarrow> Inr () | Some err \<Rightarrow> Inl err))
    \<and> (0 < n \<and> n < 30 \<longrightarrow> submitter_run env (submissions w + (n - 1)) = None)
    \<and> (n = 0 \<longrightarrow> isl (fst ?R))" for pre kw n
  have goal: ?thesis if "X pre kw n" "?prem \<longrightarrow> 0 < n \<and> trace w @ pre = trace w2" for pre kw n
    using that unfolding X_def by blast
  have run: "\<exists>pre n. X pre kw n \<and> 0 < n \<and> trace w @ pre = trace v"
    if r: "?R = retry_from 1 ?pol (run_submitter env NightlyStyle kw) v" and q: "quiet w v"
    for kw v
  proof -
    from q obtain pre where pre: "trace v = trace w @ pre"
        "list_all (\<lambda>ev. \<not> is_nightly_run ev) pre" and s: "submissions v = submissions w"
      by (auto simp: quiet_def extends_with_def)
    from retry_nightly_runs[of 1 ?pol env kw v]
    obtain n where n: "0 < n" "1 + n \<le> max (Suc 1) (Suc (attempts ?pol))"
        "trace (snd (retry_from 1 ?pol (run_submitter env NightlyStyle kw) v)) =
           trace v @ retried (NightlyRun kw) (sleeptime ?pol) (max_sleeptime ?pol) 1 n"
        "\<forall>i. Suc i < n \<longrightarrow> submitter_run env (submissions v + i) \<noteq> None"
        "fst (retry_from 1 ?pol (run_submitter env NightlyStyle kw) v) =
           (case submitter_run env (submissions v + (n - 1)) of
              None \<Rightarrow> Inr () | Some err \<Rightarrow> Inl err)"
        "1 + n \<le> attempts ?pol \<longrightarrow> submitter_run env (submissions v + (n - 1)) = None"
      by blast
    have b: "n \<le> 30" using n(2) by simp
    have t: "trace (snd ?R) = trace w @ pre @ retried (NightlyRun kw) 10 60 1 n"
      unfolding r n(3) pre(1) by simp
    have c: "0 < n \<and> n < 30 \<longrightarrow> submitter_run env (submissions w + (n - 1)) = None"
    proof
      assume "0 < n \<and> n < 30"
      then have "1 + n \<le> attempts ?pol" by simp
      with n(6) have "submitter_run env (submissions v + (n - 1)) = None" by blast
      then show "submitter_run env (submissions w + (n - 1)) = None" unfolding s .
    qed
    have f: "fst ?R = (case submitter_run env (submissions w + (n - 1)) of
              None \<Rightarrow> Inr () | Some err \<Rightarrow> Inl err)"
      unfolding r n(5) s ..
    have "X pre kw n"
      unfolding X_def using t pre(2) b n(4)[unfolded s] f c n(1) by blast
    with n(1) pre(1) show ?thesis by auto
  qed
  show ?thesis
  proof (cases ?prem)
    case True
    from True have hs: "contains e ''to_hash''" "contains e ''to_size''" "contains e ''hash''"
        "contains e ''size''" by simp_all
    from True have f: "getitem e ''mar'' = Inr mar" "getitem e ''to_mar'' = Inr to_mar"
       "getitem e ''branch'' = Inr branch" "getitem e ''to_buildid'' = Inr to_buildid"
       "getitem e ''appName'' = Inr appName" "getitem e ''version'' = Inr version"
       "getitem e ''platform'' = Inr platform" "getitem e ''locale'' = Inr loc" by simp_all
    from True have p: "verify_copy_to_s3 env (s3_bucket args) (aws_key_id args) (aws_key_secret args)
            (parent_url @ ''/'' @ py_format env mar)
            (py_format env branch @ ''/'' @ py_format env to_buildid @ ''/'' @ py_format env mar)
            signing_cert (log_info ''Nightly style balrog submission'' [] w) =
          (Inr partial_url, w1)"
        "verify_copy_to_s3 env (s3_bucket args) (aws_key_id args) (aws_key_secret args)
            (py_format env to_mar)
            (py_format env branch @ ''/'' @ py_format env to_buildid @ ''/'' @
             py_format env appName @ ''-'' @ py_format env branch @ ''-'' @
             py_format env version @ ''-'' @ py_format env platform @ ''-'' @
             py_format env loc @ ''.complete.mar'')
            signing_cert w1 =
          (Inr complete_url, w2)" by simp_all
    from nightly_entry_published(1)[where auth = auth, OF assms hs f p]
    obtain kw where r: "?R = retry_from 1 ?pol (run_submitter env NightlyStyle kw) w2" ..
    have q: "quiet w w2" by (rule nightly_entry_published(2)[OF assms hs f p])
    from run[OF r q] obtain pre n where x: "X pre kw n" and "0 < n" "trace w @ pre = trace w2"
      by blast
    then have "?prem \<longrightarrow> 0 < n \<and> trace w @ pre = trace w2" by blast
    with x show ?thesis by (rule goal)
  next
    case False
    then have v: "?prem \<longrightarrow> 0 < n \<and> trace w @ pre = trace w2" for n :: nat and pre by blast
    from nightly_entry_shape[OF assms, of env args auth parent_url signing_cert w]
    show ?thesis
    proof
      assume "\<exists>err v. ?R = (Inl err, v) \<and> quiet w v"
      then obtain err v where r: "?R = (Inl err, v)" and q: "quiet w v" by blast
      from q obtain pre where pre: "trace v = trace w @ pre"
          "list_all (\<lambda>ev. \<not> is_nightly_run ev) pre"
        by (auto simp: quiet_def extends_with_def)
      have "X pre [] 0" unfolding X_def using pre r by simp
      then show ?thesis using v by (rule goal)
    next
      assume "\<exists>kw v. ?R = retry_from 1 ?pol (run_submitter env NightlyStyle kw) v \<and> quiet w v"
      then obtain kw v where r: "?R = retry_from 1 ?pol (run_submitter env NightlyStyle kw) v"
        and q: "quiet w v" by blast
      from run[OF r q] obtain pre n where "X pre kw n" by blast
      then show ?thesis using v by (rule goal)
    qed
  qed
qed

theorem nightly_submission_retry_budget_witness:
  "\<exists>pre kw.
      trace (snd (submit_entry (env0\<lparr>submitter_run := (\<lambda>n. Some (SubmissionError ''503''))\<rparr>)
                    args0 (''user'', ''password'') True ''https://parent'' ''cert'' entry0
                    world0)) =
        pre @ retried (NightlyRun kw) 10 60 1 30
    \<and> list_all (\<lambda>ev. \<not> is_nightly_run ev) pre
    \<and> sleeps_of (retried (NightlyRun kw) 10 60 1 30) = [10, 20, 40] @ replicate 26 60
    \<and> fst (submit_entry (env0\<lparr>submitter_run := (\<lambda>n. Some (SubmissionError ''503''))\<rparr>)
              args0 (''user'', ''password'') True ''https://parent'' ''cert'' entry0 world0) =
        Inl (SubmissionError ''503'')"
proof -
  let ?env = "env0\<lparr>submitter_run := (\<lambda>n. Some (SubmissionError ''503''))\<rparr>"
  let ?R = "submit_entry ?env args0 (''user'', ''password'') True ''https://parent'' ''cert''
              entry0 world0"
  let ?w0 = "log_info ''Nightly style balrog submission'' [] world0"
  let ?pub1 = "verify_copy_to_s3 ?env ''bkt'' ''id'' ''secret'' ''https://parent/p.mar''
                 ''release/B2/p.mar'' ''cert''"
  let ?pub2 = "verify_copy_to_s3 ?env ''bkt'' ''id'' ''secret'' ''https://x/c.mar''
                 ''release/B2/app-release-2.0-linux64-en-US.complete.mar'' ''cert''"
  let ?u1 = "''bkt/release/B2/p.mar?versionId=0''"
  let ?u2 = "''bkt/release/B2/app-release-2.0-linux64-en-US.complete.mar?versionId=1''"
  have c: "\<not> (contains entry0 ''previousVersion'' \<and> contains entry0 ''previousBuildNumber'')"
          "contains entry0 ''from_buildid''" "True"
    by (simp_all add: contains_def entry0_def)
  have hs: "contains entry0 ''to_hash''" "contains entry0 ''to_size''" "contains entry0 ''hash''"
           "contains entry0 ''size''"
    by (simp_all add: contains_def entry0_def)
  have f: "getitem entry0 ''mar'' = Inr (JStr ''p.mar'')"
          "getitem entry0 ''to_mar'' = Inr (JStr ''https://x/c.mar'')"
          "getitem entry0 ''branch'' = Inr (JStr ''release'')"
          "getitem entry0 ''to_buildid'' = Inr (JStr ''B2'')"
          "getitem entry0 ''appName'' = Inr (JStr ''app'')"
          "getitem entry0 ''version'' = Inr (JStr ''2.0'')"
          "getitem entry0 ''platform'' = Inr (JStr ''linux64'')"
          "getitem entry0 ''locale'' = Inr (JStr ''en-US'')"
    by (simp_all add: getitem_def entry0_def)
  define w1 where "w1 = snd (?pub1 ?w0)"
  have p1: "?pub1 ?w0 = (Inr ?u1, w1)"
    unfolding w1_def by (rule pair_of_fst) code_simp
  define w2 where "w2 = snd (?pub2 w1)"
  have p2: "?pub2 w1 = (Inr ?u2, w2)"
    unfolding w2_def w1_def by (rule pair_of_fst) code_simp
  have a: "s3_bucket args0 = ''bkt''" "aws_key_id args0 = ''id''" "aws_key_secret args0 = ''secret''"
    by (simp_all add: args0_def)
  from nightly_submission_retry_budget[OF c, where env = ?env and args = args0
         and auth = "(''user'', ''password'')" and parent_url = "''https://parent''"
         and signing_cert = "''cert''" and w = world0
         and mar = "JStr ''p.mar''" and to_mar = "JStr ''https://x/c.mar''"
         and branch = "JStr ''release''" and to_buildid = "JStr ''B2''"
         and appName = "JStr ''app''" and version = "JStr ''2.0''"
         and platform = "JStr ''linux64''" and loc = "JStr ''en-US''"
         and partial_url = ?u1 and ?w1.0 = w1 and complete_url = ?u2 and ?w2.0 = w2]
  obtain pre kw n where r: "trace (snd ?R) = trace world0 @ pre @ retried (NightlyRun kw) 10 60 1 n"
      "list_all (\<lambda>ev. \<not> is_nightly_run ev) pre" "n \<le> 30"
      "0 < n \<longrightarrow> fst ?R =
           (case submitter_run ?env (submissions world0 + (n - 1)) of
              None \<Rightarrow> Inr () | Some err \<Rightarrow> Inl err)"
      "0 < n \<and> n < 30 \<longrightarrow> submitter_run ?env (submissions world0 + (n - 1)) = None"
      "0 < n"
    using hs f p1 p2 by (auto simp: a)
  have n: "n = 30" using r(3,5,6) by (cases "n < 30") simp_all
  have e: "fst ?R = Inl (SubmissionError ''503'')" using r(4,6) by simp
  have t: "trace (snd ?R) = pre @ retried (NightlyRun kw) 10 60 1 30"
    using r(1) unfolding n by (simp add: world0_def)
  have l: "map (\<lambda>j. min (10 * 2 ^ (j - 1)) 60) [1..<1 + (30 - 1)] = [10, 20, 40] @ replicate 26 (60::int)"
    by code_simp
  have s: "sleeps_of (retried (NightlyRun kw) 10 60 1 30) = [10, 20, 40] @ replicate 26 60"
    unfolding retried_sleeps l ..
  from t r(2) s e show ?thesis by blast
qed

end
